theory Spec2Isabelle
  imports Complex_Main "HOL-Library.Log_Nat"
begin

section \<open>Markov-chain ABR streaming simulator: embedding of markov-chain.py\<close>

text \<open>
  Number model. A Python float is an IEEE 754 binary64 number, and every arithmetic
  operation on floats returns the exact result rounded to the format. A float is
  modelled as the real number it denotes, and every function that computes with floats
  takes the rounding \<open>rnd :: real \<Rightarrow> real\<close> of the format as its first argument: the sum
  \<open>a + b\<close> of the code is \<open>rnd (a + b)\<close> in the model, and likewise for \<open>-\<close>, \<open>*\<close>, \<open>/\<close>
  and for the library functions that return a float. Comparisons are exact, on the
  rounded values. \<open>double_round\<close> below is the rounding of binary64 (to nearest, ties
  to even, with subnormals); overflow to infinity and NaN are not modelled, so with
  \<open>double_round\<close> the model is the code as long as magnitudes stay below \<open>2^1024\<close>.
  The ints of the state set and of the configuration are in the range that binary64
  holds exactly. Counts and indices are \<open>nat\<close> where Python can only produce
  non-negative ints (\<open>enumerate\<close>, \<open>range\<close>), and \<open>int\<close> where the caller chooses the
  value (\<open>num_steps\<close>, \<open>smooth_window\<close>, \<open>runs\<close>).

  Randomness. \<open>random.random()\<close> reads a global generator. The model passes the
  generator explicitly: an infinite stream of draws \<open>draws :: nat \<Rightarrow> real\<close> and the
  position \<open>k\<close> of the next unread draw; every function that draws returns the new
  position.

  Errors. A Python exception is the \<open>Inl\<close> branch of a sum type. The first three
  constructors are the built-in exceptions the code can raise. \<open>ConfigurationError\<close>
  and \<open>InvalidStateError\<close> are names of the specification's error taxonomy; the
  source file defines and raises neither, they are here so that statements about
  them can be written down.
\<close>

datatype error =
    IndexError
  | ZeroDivisionError
  | StatisticsError
  | ConfigurationError
  | InvalidStateError

subsection \<open>The rounding of binary64\<close>

text \<open>Rounding a real to the nearest integer, a tie going to the even neighbour.\<close>

definition round_half_even :: "real \<Rightarrow> int" where
  "round_half_even y =
     (let f = \<lfloor>y\<rfloor>; d = y - of_int f
      in if d < 1 / 2 then f
         else if 1 / 2 < d then f + 1
         else if even f then f else f + 1)"

text \<open>
  The binary exponent of a positive real: \<open>2 powi (ilog2 y) \<le> y < 2 powi (ilog2 y + 1)\<close>.
\<close>

definition ilog2 :: "real \<Rightarrow> int" where
  "ilog2 y = (if 1 \<le> y then bitlen \<lfloor>y\<rfloor> - 1 else - bitlen (\<lceil>1 / y\<rceil> - 1))"

text \<open>
  The exponent of the unit in the last place: 53 significant bits, and never below
  the exponent \<open>-1074\<close> of the subnormal numbers.
\<close>

definition ulp_exponent :: "real \<Rightarrow> int" where
  "ulp_exponent y = max (ilog2 y - 52) (- 1074)"

definition round_pos :: "real \<Rightarrow> real" where
  "round_pos y =
     (if y = 0 then 0
      else let q = ulp_exponent y
           in of_int (round_half_even (y / 2 powi q)) * 2 powi q)"

definition double_round :: "real \<Rightarrow> real" where
  "double_round x = (if x < 0 then - round_pos (- x) else round_pos x)"

subsection \<open>simulate\_throughput\<close>

text \<open>
  The inner loop \<^verbatim>\<open>for j, p in enumerate(P[current]): cum += p; if r < cum: current = j; break\<close>.
  Arguments: the rounding, the draw, the running sum, the running index, the value of
  \<open>current\<close> before the loop, the rest of the row. The running sum is rounded at every
  addition. Falling off the end of the row leaves \<open>current\<close> as it was.
\<close>

fun scan_row :: "(real \<Rightarrow> real) \<Rightarrow> real \<Rightarrow> real \<Rightarrow> nat \<Rightarrow> nat \<Rightarrow> real list \<Rightarrow> nat" where
  "scan_row rnd r cum j current [] = current"
| "scan_row rnd r cum j current (p # ps) =
     (let cum' = rnd (cum + p)
      in if r < cum' then j else scan_row rnd r cum' (Suc j) current ps)"

text \<open>
  One pass through the body of the outer loop, on the loop state
  \<open>(trace, current, k)\<close>: append \<open>states[current]\<close> (IndexError when out of range),
  draw \<open>r\<close>, read the row \<open>P[current]\<close> (IndexError when out of range), scan it.
\<close>

definition sample_step ::
  "(real \<Rightarrow> real) \<Rightarrow> real list list \<Rightarrow> real list \<Rightarrow> (nat \<Rightarrow> real) \<Rightarrow> real list \<times> nat \<times> nat
     \<Rightarrow> error + (real list \<times> nat \<times> nat)" where
  "sample_step rnd P states draws s =
     (case s of (trace, current, k) \<Rightarrow>
        if length states \<le> current then Inl IndexError
        else let trace' = trace @ [states ! current];
                 r = draws k
             in if length P \<le> current then Inl IndexError
                else Inr (trace', scan_row rnd r 0 0 current (P ! current), Suc k))"

fun sample_loop ::
  "nat \<Rightarrow> (real \<Rightarrow> real) \<Rightarrow> real list list \<Rightarrow> real list \<Rightarrow> (nat \<Rightarrow> real)
     \<Rightarrow> real list \<times> nat \<times> nat \<Rightarrow> error + (real list \<times> nat \<times> nat)" where
  "sample_loop 0 rnd P states draws s = Inr s"
| "sample_loop (Suc n) rnd P states draws s =
     (case sample_step rnd P states draws s of
        Inl e \<Rightarrow> Inl e
      | Inr s' \<Rightarrow> sample_loop n rnd P states draws s')"

text \<open>
  \<open>range(num_steps)\<close> is empty for a negative \<open>num_steps\<close>, hence \<open>nat num_steps\<close>
  iterations. The result is the trace and the new position of the generator.
\<close>

definition simulate_throughput ::
  "(real \<Rightarrow> real) \<Rightarrow> int \<Rightarrow> real list list \<Rightarrow> real list \<Rightarrow> (nat \<Rightarrow> real) \<Rightarrow> nat
     \<Rightarrow> error + (real list \<times> nat)" where
  "simulate_throughput rnd num_steps P states draws k =
     (case sample_loop (nat num_steps) rnd P states draws ([], 0, k) of
        Inl e \<Rightarrow> Inl e
      | Inr (trace, current, k') \<Rightarrow> Inr (trace, k'))"

subsection \<open>get\_smoothed\_throughput\<close>

text \<open>
  Python's slice \<open>xs[start:stop]\<close>: a negative bound counts from the end, each bound
  is clamped to \<open>0..len(xs)\<close>, and a stop at or before the start gives the empty list.
\<close>

definition slice_bound :: "int \<Rightarrow> nat \<Rightarrow> nat" where
  "slice_bound a n = (if a < 0 then nat (max (a + int n) 0) else min (nat a) n)"

definition py_slice :: "'a list \<Rightarrow> int \<Rightarrow> int \<Rightarrow> 'a list" where
  "py_slice xs start stop =
     (let lo = slice_bound start (length xs);
          hi = slice_bound stop (length xs)
      in take (hi - lo) (drop lo xs))"

text \<open>
  \<open>statistics.mean\<close>: StatisticsError on no data; else the data are summed exactly, as
  fractions, and the quotient by the count is rounded once, to the float returned.
\<close>

definition statistics_mean :: "(real \<Rightarrow> real) \<Rightarrow> real list \<Rightarrow> error + real" where
  "statistics_mean rnd xs =
     (if xs = [] then Inl StatisticsError
      else Inr (rnd (sum_list xs / real (length xs))))"

definition get_smoothed_throughput ::
  "(real \<Rightarrow> real) \<Rightarrow> real list \<Rightarrow> int \<Rightarrow> int \<Rightarrow> error + real" where
  "get_smoothed_throughput rnd trace idx window =
     (let start = max 0 (idx - window + 1)
      in statistics_mean rnd (py_slice trace start (idx + 1)))"

subsection \<open>simulate\_playback\<close>

text \<open>
  The body of \<^verbatim>\<open>for i, bw in enumerate(trace)\<close> on the loop state
  \<open>(buffer_sec, total_stall)\<close>. The division raises ZeroDivisionError when \<open>bw\<close> is 0.
  \<open>quality * segment_length / bw\<close> is a product, rounded, then a quotient, rounded.
  The branch updates the state, then \<open>buffer_sec += segment_length\<close> runs on the
  updated state.
\<close>

definition playback_step ::
  "(real \<Rightarrow> real) \<Rightarrow> real list \<Rightarrow> real \<Rightarrow> int \<Rightarrow> nat \<Rightarrow> real \<Rightarrow> real \<times> real
     \<Rightarrow> error + (real \<times> real)" where
  "playback_step rnd trace segment_length smooth_window i bw s =
     (case s of (buffer_sec, total_stall) \<Rightarrow>
        (case get_smoothed_throughput rnd trace (int i) smooth_window of
           Inl e \<Rightarrow> Inl e
         | Inr quality \<Rightarrow>
             if bw = 0 then Inl ZeroDivisionError
             else let download_time = rnd (rnd (quality * segment_length) / bw);
                      (buffer_sec, total_stall) =
                        (if buffer_sec \<ge> download_time
                         then (rnd (buffer_sec - download_time), total_stall)
                         else let stall = rnd (download_time - buffer_sec)
                              in (0, rnd (total_stall + stall)))
                  in Inr (rnd (buffer_sec + segment_length), total_stall)))"

fun playback_loop ::
  "(real \<Rightarrow> real) \<Rightarrow> real list \<Rightarrow> real \<Rightarrow> int \<Rightarrow> (nat \<times> real) list \<Rightarrow> real \<times> real
     \<Rightarrow> error + (real \<times> real)" where
  "playback_loop rnd trace segment_length smooth_window [] s = Inr s"
| "playback_loop rnd trace segment_length smooth_window ((i, bw) # rest) s =
     (case playback_step rnd trace segment_length smooth_window i bw s of
        Inl e \<Rightarrow> Inl e
      | Inr s' \<Rightarrow> playback_loop rnd trace segment_length smooth_window rest s')"

text \<open>
  The generator \<^verbatim>\<open>(get_smoothed_throughput(trace, i, w) for i in range(len(trace)))\<close>
  as \<open>statistics.mean\<close> consumes it: values in order, the first exception ends it.
\<close>

fun collect :: "(nat \<Rightarrow> error + real) \<Rightarrow> nat list \<Rightarrow> error + real list" where
  "collect f [] = Inr []"
| "collect f (i # rest) =
     (case f i of
        Inl e \<Rightarrow> Inl e
      | Inr v \<Rightarrow> (case collect f rest of Inl e \<Rightarrow> Inl e | Inr vs \<Rightarrow> Inr (v # vs)))"

definition simulate_playback ::
  "(real \<Rightarrow> real) \<Rightarrow> real list \<Rightarrow> real \<Rightarrow> int \<Rightarrow> error + (real \<times> real)" where
  "simulate_playback rnd trace segment_length smooth_window =
     (case playback_loop rnd trace segment_length smooth_window (enumerate 0 trace)
             (rnd (segment_length * of_int smooth_window), 0) of
        Inl e \<Rightarrow> Inl e
      | Inr (buffer_sec, total_stall) \<Rightarrow>
          (case collect (\<lambda>i. get_smoothed_throughput rnd trace (int i) smooth_window)
                  [0..<length trace] of
             Inl e \<Rightarrow> Inl e
           | Inr qualities \<Rightarrow>
               (case statistics_mean rnd qualities of
                  Inl e \<Rightarrow> Inl e
                | Inr avg_bitrate \<Rightarrow> Inr (avg_bitrate, total_stall))))"

subsection \<open>monte\_carlo and parameter\_sweep\<close>

fun monte_carlo_loop ::
  "nat \<Rightarrow> (real \<Rightarrow> real) \<Rightarrow> real list list \<Rightarrow> real list \<Rightarrow> int \<Rightarrow> real \<Rightarrow> int
     \<Rightarrow> (nat \<Rightarrow> real) \<Rightarrow> nat \<Rightarrow> (real \<times> real) list \<Rightarrow> error + ((real \<times> real) list \<times> nat)" where
  "monte_carlo_loop 0 rnd P states num_steps segment_length smooth_window draws k results =
     Inr (results, k)"
| "monte_carlo_loop (Suc n) rnd P states num_steps segment_length smooth_window draws k results =
     (case simulate_throughput rnd num_steps P states draws k of
        Inl e \<Rightarrow> Inl e
      | Inr (trace, k') \<Rightarrow>
          (case simulate_playback rnd trace segment_length smooth_window of
             Inl e \<Rightarrow> Inl e
           | Inr outcome \<Rightarrow>
               monte_carlo_loop n rnd P states num_steps segment_length smooth_window draws k'
                 (results @ [outcome])))"

definition monte_carlo ::
  "(real \<Rightarrow> real) \<Rightarrow> real list list \<Rightarrow> real list \<Rightarrow> int \<Rightarrow> real \<Rightarrow> int \<Rightarrow> int
     \<Rightarrow> (nat \<Rightarrow> real) \<Rightarrow> nat \<Rightarrow> error + ((real \<times> real) list \<times> nat)" where
  "monte_carlo rnd P states num_steps segment_length smooth_window runs draws k =
     monte_carlo_loop (nat runs) rnd P states num_steps segment_length smooth_window draws k []"

text \<open>
  \<open>statistics.stdev\<close>: StatisticsError on fewer than two data points, else the square
  root of the sample variance (divisor \<open>n - 1\<close>), rounded to the float returned.
\<close>

definition statistics_stdev :: "(real \<Rightarrow> real) \<Rightarrow> real list \<Rightarrow> error + real" where
  "statistics_stdev rnd xs =
     (if length xs < 2 then Inl StatisticsError
      else let m = sum_list xs / real (length xs)
           in Inr (rnd (sqrt (sum_list (map (\<lambda>x. (x - m)\<^sup>2) xs) / real (length xs - 1)))))"

text \<open>One data row of sweep\_results.csv, and the file: its header and its data rows.\<close>

record sweep_row =
  col_segment_length :: real
  col_smooth_window :: int
  col_mean_bitrate :: real
  col_sd_bitrate :: real
  col_mean_stall :: real
  col_sd_stall :: real

definition csv_header :: "string list" where
  "csv_header = [''segment_length'', ''smooth_window'', ''mean_bitrate'', ''sd_bitrate'',
                 ''mean_stall'', ''sd_stall'']"

text \<open>The body of the inner loop of parameter\_sweep: one Monte Carlo run and its row.\<close>

definition sweep_cell ::
  "(real \<Rightarrow> real) \<Rightarrow> real list list \<Rightarrow> real list \<Rightarrow> int \<Rightarrow> int \<Rightarrow> (nat \<Rightarrow> real) \<Rightarrow> real \<Rightarrow> int
     \<Rightarrow> nat \<Rightarrow> error + (sweep_row \<times> nat)" where
  "sweep_cell rnd P states num_steps runs draws seg_len w k =
     (case monte_carlo rnd P states num_steps seg_len w runs draws k of
        Inl e \<Rightarrow> Inl e
      | Inr (data, k') \<Rightarrow>
          (let qs = map fst data; stl = map snd data
           in case statistics_mean rnd qs of Inl e \<Rightarrow> Inl e | Inr mean_q \<Rightarrow>
              case statistics_stdev rnd qs of Inl e \<Rightarrow> Inl e | Inr sd_q \<Rightarrow>
              case statistics_mean rnd stl of Inl e \<Rightarrow> Inl e | Inr mean_s \<Rightarrow>
              case statistics_stdev rnd stl of Inl e \<Rightarrow> Inl e | Inr sd_s \<Rightarrow>
                Inr (\<lparr>col_segment_length = seg_len, col_smooth_window = w,
                      col_mean_bitrate = mean_q, col_sd_bitrate = sd_q,
                      col_mean_stall = mean_s, col_sd_stall = sd_s\<rparr>, k')))"

text \<open>\<^verbatim>\<open>for w in smooth_windows\<close>, on the state (rows written so far, generator position).\<close>

fun sweep_windows ::
  "(real \<Rightarrow> real) \<Rightarrow> real list list \<Rightarrow> real list \<Rightarrow> int \<Rightarrow> int \<Rightarrow> (nat \<Rightarrow> real) \<Rightarrow> real
     \<Rightarrow> int list \<Rightarrow> sweep_row list \<times> nat \<Rightarrow> error + (sweep_row list \<times> nat)" where
  "sweep_windows rnd P states num_steps runs draws seg_len [] s = Inr s"
| "sweep_windows rnd P states num_steps runs draws seg_len (w # ws) s =
     (case s of (rows, k) \<Rightarrow>
        (case sweep_cell rnd P states num_steps runs draws seg_len w k of
           Inl e \<Rightarrow> Inl e
         | Inr (row, k') \<Rightarrow>
             sweep_windows rnd P states num_steps runs draws seg_len ws (rows @ [row], k')))"

text \<open>\<^verbatim>\<open>for seg_len in segment_lengths\<close>.\<close>

fun sweep_lengths ::
  "(real \<Rightarrow> real) \<Rightarrow> real list list \<Rightarrow> real list \<Rightarrow> int \<Rightarrow> int \<Rightarrow> (nat \<Rightarrow> real) \<Rightarrow> real list
     \<Rightarrow> int list \<Rightarrow> sweep_row list \<times> nat \<Rightarrow> error + (sweep_row list \<times> nat)" where
  "sweep_lengths rnd P states num_steps runs draws [] smooth_windows s = Inr s"
| "sweep_lengths rnd P states num_steps runs draws (seg_len # rest) smooth_windows s =
     (case sweep_windows rnd P states num_steps runs draws seg_len smooth_windows s of
        Inl e \<Rightarrow> Inl e
      | Inr s' \<Rightarrow> sweep_lengths rnd P states num_steps runs draws rest smooth_windows s')"

text \<open>
  parameter\_sweep writes the header, then one row per cell. The result is the file
  written (header, data rows) and the new position of the generator.
\<close>

definition parameter_sweep ::
  "(real \<Rightarrow> real) \<Rightarrow> real list list \<Rightarrow> real list \<Rightarrow> int \<Rightarrow> real list \<Rightarrow> int list \<Rightarrow> int
     \<Rightarrow> (nat \<Rightarrow> real) \<Rightarrow> nat \<Rightarrow> error + ((string list \<times> sweep_row list) \<times> nat)" where
  "parameter_sweep rnd P states num_steps segment_lengths smooth_windows runs draws k =
     (case sweep_lengths rnd P states num_steps runs draws segment_lengths smooth_windows ([], k) of
        Inl e \<Rightarrow> Inl e
      | Inr (rows, k') \<Rightarrow> Inr ((csv_header, rows), k'))"

text \<open>
  The built-in configuration of \<open>main\<close> (used when config.yaml is missing): the
  transition matrix, its decimal literals read as floats, and the state set.
\<close>

definition default_P :: "real list list" where
  "default_P = map (map double_round)
     [[7 / 10, 2 / 10, 1 / 10], [1 / 10, 8 / 10, 1 / 10], [1 / 10, 3 / 10, 6 / 10]]"

definition default_states :: "real list" where
  "default_states = [500, 1000, 2000]"

section \<open>Definitions that follow the specification's words\<close>

text \<open>
  A real is a value of the float format when rounding leaves it as it is. The two
  properties of a rounding that the tie-break intervals of the sampler rest on: it is
  monotone, and its results are values of the format.
\<close>

definition is_float :: "(real \<Rightarrow> real) \<Rightarrow> real \<Rightarrow> bool" where
  "is_float rnd x = (rnd x = x)"

definition rounding_ok :: "(real \<Rightarrow> real) \<Rightarrow> bool" where
  "rounding_ok rnd = (mono rnd \<and> (\<forall>x. is_float rnd (rnd x)))"

text \<open>
  SmoothedEstimator: the arithmetic mean of \<open>trace[max(0, index-window+1) .. index]\<close>
  inclusive, for an index inside the trace; \<open>spec_quality\<close> is that mean as a float.
\<close>

definition spec_smoothed :: "real list \<Rightarrow> nat \<Rightarrow> int \<Rightarrow> real" where
  "spec_smoothed trace i w =
     (let lo = nat (max 0 (int i - w + 1));
          vs = map (\<lambda>k. trace ! k) [lo..<Suc i]
      in sum_list vs / real (length vs))"

definition spec_quality :: "(real \<Rightarrow> real) \<Rightarrow> real list \<Rightarrow> nat \<Rightarrow> int \<Rightarrow> real" where
  "spec_quality rnd trace i w = rnd (spec_smoothed trace i w)"

text \<open>
  PlaybackSimulator, one trace index: with \<open>bw = trace[i]\<close> and
  \<open>download_time = smoothed(trace, i, w) * segment_length / bw\<close>, a buffer that covers
  the download loses \<open>download_time\<close> and nothing stalls; otherwise the shortfall
  \<open>download_time - buffer_seconds\<close> is added to the stall time and the buffer is set
  to 0; after either branch the buffer gains \<open>segment_length\<close>. The arithmetic is
  that of the float format.
\<close>

definition spec_playback_step ::
  "(real \<Rightarrow> real) \<Rightarrow> real list \<Rightarrow> real \<Rightarrow> int \<Rightarrow> real \<times> real \<Rightarrow> nat \<Rightarrow> real \<times> real" where
  "spec_playback_step rnd trace segment_length w s i =
     (case s of (buffer_seconds, total_stall_time) \<Rightarrow>
        let bw = trace ! i;
            download_time = rnd (rnd (spec_quality rnd trace i w * segment_length) / bw);
            drained = (if buffer_seconds \<ge> download_time
                       then (rnd (buffer_seconds - download_time), total_stall_time)
                       else (0, rnd (total_stall_time + rnd (download_time - buffer_seconds))))
        in (rnd (fst drained + segment_length), snd drained))"

text \<open>
  The accumulation over the whole trace, from the initial buffer
  \<open>segment_length * smoothing_window\<close> and no stall.
\<close>

definition spec_total_stall :: "(real \<Rightarrow> real) \<Rightarrow> real list \<Rightarrow> real \<Rightarrow> int \<Rightarrow> real" where
  "spec_total_stall rnd trace segment_length w =
     snd (foldl (spec_playback_step rnd trace segment_length w)
            (rnd (segment_length * of_int w), 0) [0..<length trace])"

text \<open>The mean of the quality decisions \<open>smoothed(trace, i, w)\<close> over all indices.\<close>

definition spec_average_bitrate :: "(real \<Rightarrow> real) \<Rightarrow> real list \<Rightarrow> int \<Rightarrow> real" where
  "spec_average_bitrate rnd trace w =
     (let qs = map (\<lambda>i. spec_quality rnd trace i w) [0..<length trace]
      in rnd (sum_list qs / real (length qs)))"

text \<open>
  ThroughputChain. The preconditions under which the sampler cannot fail: no row of
  the matrix is longer than the state set (\<open>rows_fit\<close>), and moreover the state set
  is not empty and every state has a row (\<open>chain_ok\<close>). A square matrix of the
  dimension of a non-empty state set, as the data model requires, satisfies both.
\<close>

definition rows_fit :: "real list list \<Rightarrow> real list \<Rightarrow> bool" where
  "rows_fit P states = list_all (\<lambda>row. length row \<le> length states) P"

definition chain_ok :: "real list list \<Rightarrow> real list \<Rightarrow> bool" where
  "chain_ok P states = (states \<noteq> [] \<and> length states \<le> length P \<and> rows_fit P states)"

definition nonneg_row :: "real list \<Rightarrow> bool" where
  "nonneg_row row = list_all (\<lambda>p. 0 \<le> p) row"

text \<open>
  The cumulative sum of a list of probabilities, added up in index order in the
  float format; the cumulative probability of a row up to and including column \<open>j\<close>;
  the total cumulative sum of a row.
\<close>

definition running_sum :: "(real \<Rightarrow> real) \<Rightarrow> real list \<Rightarrow> real" where
  "running_sum rnd ps = foldl (\<lambda>c p. rnd (c + p)) 0 ps"

definition cum_prob :: "(real \<Rightarrow> real) \<Rightarrow> real list \<Rightarrow> nat \<Rightarrow> real" where
  "cum_prob rnd row j = running_sum rnd (take (Suc j) row)"

definition row_total :: "(real \<Rightarrow> real) \<Rightarrow> real list \<Rightarrow> real" where
  "row_total rnd row = running_sum rnd row"

text \<open>
  The transition: the first index \<open>j\<close>, in index order, whose cumulative probability
  exceeds the draw; the chain stays where it is when there is none.
\<close>

definition spec_next :: "(real \<Rightarrow> real) \<Rightarrow> real list \<Rightarrow> real \<Rightarrow> nat \<Rightarrow> nat" where
  "spec_next rnd row r current =
     (case List.find (\<lambda>j. r < cum_prob rnd row j) [0..<length row] of
        Some j \<Rightarrow> j
      | None \<Rightarrow> current)"

text \<open>
  The state index after \<open>n\<close> steps from the state index \<open>c0\<close>, step \<open>n\<close> reading
  draw number \<open>k + n\<close>; the trace emits the state before each step, from index 0.
\<close>

fun spec_current ::
  "(real \<Rightarrow> real) \<Rightarrow> real list list \<Rightarrow> (nat \<Rightarrow> real) \<Rightarrow> nat \<Rightarrow> nat \<Rightarrow> nat \<Rightarrow> nat" where
  "spec_current rnd P draws k c0 0 = c0"
| "spec_current rnd P draws k c0 (Suc n) =
     (let current = spec_current rnd P draws k c0 n
      in spec_next rnd (P ! current) (draws (k + n)) current)"

definition spec_trace ::
  "(real \<Rightarrow> real) \<Rightarrow> real list list \<Rightarrow> real list \<Rightarrow> (nat \<Rightarrow> real) \<Rightarrow> nat \<Rightarrow> nat \<Rightarrow> real list" where
  "spec_trace rnd P states draws k n =
     map (\<lambda>i. states ! spec_current rnd P draws k 0 i) [0..<n]"

text \<open>A generator that repeats a finite list of draws, to write concrete runs.\<close>

definition replay :: "real list \<Rightarrow> nat \<Rightarrow> real" where
  "replay rs n = (if rs = [] then 0 else rs ! (n mod length rs))"

text \<open>
  ParameterSweepDriver: the key of a row, and the precondition on the smoothing
  windows of a sweep.
\<close>

definition row_key :: "sweep_row \<Rightarrow> real \<times> int" where
  "row_key row = (col_segment_length row, col_smooth_window row)"

definition windows_ok :: "int list \<Rightarrow> bool" where
  "windows_ok smooth_windows = list_all (\<lambda>w. 1 \<le> w) smooth_windows"

section \<open>The rounding of binary64 is monotone and idempotent\<close>

lemma rhe_of_int: "round_half_even (of_int n) = n"
  by (simp add: round_half_even_def)

lemma rhe_range: "of_int (round_half_even y) \<in> {of_int \<lfloor>y\<rfloor>, of_int \<lfloor>y\<rfloor> + (1::real)}"
  by (simp add: round_half_even_def Let_def)

lemma rhe_mono:
  assumes "y \<le> z"
  shows "round_half_even y \<le> round_half_even z"
proof (cases "\<lfloor>y\<rfloor> = \<lfloor>z\<rfloor>")
  case True
  then show ?thesis
    using assms by (auto simp: round_half_even_def Let_def)
next
  case False
  with assms have "\<lfloor>y\<rfloor> < \<lfloor>z\<rfloor>" using floor_mono[OF assms] by linarith
  moreover have "round_half_even y \<le> \<lfloor>y\<rfloor> + 1" by (simp add: round_half_even_def Let_def)
  moreover have "\<lfloor>z\<rfloor> \<le> round_half_even z" by (simp add: round_half_even_def Let_def)
  ultimately show ?thesis by linarith
qed

lemma rhe_ge: "of_int n \<le> y \<Longrightarrow> n \<le> round_half_even y"
  using rhe_mono[of "of_int n" y] by (simp add: rhe_of_int)

lemma rhe_le: "y \<le> of_int n \<Longrightarrow> round_half_even y \<le> n"
  using rhe_mono[of y "of_int n"] by (simp add: rhe_of_int)

lemma ilog2_bounds:
  assumes "0 < y"
  shows "2 powi (ilog2 y) \<le> y \<and> y < 2 powi (ilog2 y + 1)"
proof (cases "1 \<le> y")
  case True
  let ?n = "\<lfloor>y\<rfloor>"
  have n: "0 < ?n" using True by simp
  have b1: "1 \<le> bitlen ?n" using n by (simp add: bitlen_alt_def)
  from bitlen_bounds[OF n] have lo: "2 ^ nat (bitlen ?n - 1) \<le> ?n" and hi: "?n < 2 ^ nat (bitlen ?n)"
    by simp_all
  have "(2::real) ^ nat (bitlen ?n - 1) \<le> of_int ?n"
    using lo by (metis of_int_le_iff of_int_numeral of_int_power)
  also have "\<dots> \<le> y" by simp
  finally have A: "2 powi (ilog2 y) \<le> y"
    using True b1 by (simp add: ilog2_def power_int_def)
  have "?n + 1 \<le> 2 ^ nat (bitlen ?n)" using hi by simp
  then have "of_int (?n + 1) \<le> (2::real) ^ nat (bitlen ?n)"
    by (metis of_int_le_iff of_int_numeral of_int_power)
  moreover have "y < of_int (?n + 1)" by linarith
  ultimately have "y < (2::real) ^ nat (bitlen ?n)" by linarith
  then have B: "y < 2 powi (ilog2 y + 1)"
    using True b1 by (simp add: ilog2_def power_int_def)
  from A B show ?thesis ..
next
  case False
  let ?z = "1 / y"
  let ?c = "\<lceil>?z\<rceil> - 1"
  have z: "1 < ?z" using False assms by simp
  then have c: "0 < ?c" by linarith
  let ?b = "bitlen ?c"
  have b1: "1 \<le> ?b" using c by (simp add: bitlen_alt_def)
  from bitlen_bounds[OF c] have lo: "2 ^ nat (?b - 1) \<le> ?c" and hi: "?c < 2 ^ nat ?b"
    by simp_all
  have "(2::real) ^ nat (?b - 1) \<le> of_int ?c"
    using lo by (metis of_int_le_iff of_int_numeral of_int_power)
  also have "\<dots> < ?z" by linarith
  finally have lo': "(2::real) ^ nat (?b - 1) < ?z" .
  have "?c + 1 \<le> 2 ^ nat ?b" using hi by simp
  then have "of_int (?c + 1) \<le> (2::real) ^ nat ?b"
    by (metis of_int_le_iff of_int_numeral of_int_power)
  moreover have "?z \<le> of_int (?c + 1)" by linarith
  ultimately have hi': "?z \<le> (2::real) ^ nat ?b" by linarith
  have e: "ilog2 y = - ?b" using False by (simp add: ilog2_def)
  have "1 / (2::real) ^ nat ?b \<le> y"
    using hi' assms by (simp add: field_simps)
  then have A: "2 powi (ilog2 y) \<le> y"
    using b1 unfolding e by (simp add: power_int_def field_simps)
  have "y < 1 / (2::real) ^ nat (?b - 1)"
    using lo' assms by (simp add: field_simps)
  moreover have "2 powi (- ?b + 1) = 1 / (2::real) ^ nat (?b - 1)"
    using b1 by (auto simp: power_int_def field_simps)
  ultimately have B: "y < 2 powi (ilog2 y + 1)" unfolding e by simp
  from A B show ?thesis ..
qed

lemma ilog2_less:
  assumes "0 < y" and "y < 2 powi e"
  shows "ilog2 y < e"
proof (rule ccontr)
  assume "\<not> ilog2 y < e"
  then have "(2::real) powi e \<le> 2 powi (ilog2 y)"
    by (intro power_int_increasing) simp_all
  with ilog2_bounds[OF assms(1)] assms(2) show False by linarith
qed

lemma ilog2_ge:
  assumes "0 < y" and "2 powi e \<le> y"
  shows "e \<le> ilog2 y"
proof (rule ccontr)
  assume "\<not> e \<le> ilog2 y"
  then have "(2::real) powi (ilog2 y + 1) \<le> 2 powi e"
    by (intro power_int_increasing) simp_all
  with ilog2_bounds[OF assms(1)] assms(2) show False by linarith
qed

lemma ilog2_mono:
  assumes "0 < y" and "y \<le> z"
  shows "ilog2 y \<le> ilog2 z"
proof -
  have "0 < z" using assms by linarith
  moreover have "2 powi (ilog2 y) \<le> z" using ilog2_bounds[OF assms(1)] assms(2) by linarith
  ultimately show ?thesis by (rule ilog2_ge)
qed

lemma ulp_exponent_mono: "0 < y \<Longrightarrow> y \<le> z \<Longrightarrow> ulp_exponent y \<le> ulp_exponent z"
  using ilog2_mono[of y z] by (simp add: ulp_exponent_def)

lemma scaled_less:
  assumes "0 < y"
  shows "y / 2 powi (ulp_exponent y) < 2 ^ 53"
proof -
  let ?q = "ulp_exponent y"
  have "ilog2 y + 1 \<le> ?q + 53" by (simp add: ulp_exponent_def)
  then have "(2::real) powi (ilog2 y + 1) \<le> 2 powi (?q + 53)"
    by (intro power_int_increasing) simp_all
  with ilog2_bounds[OF assms] have "y < 2 powi (?q + 53)" by linarith
  also have "\<dots> = 2 powi ?q * 2 ^ 53" by (simp add: power_int_add)
  finally show ?thesis by (simp add: field_simps)
qed

lemma scaled_ge:
  assumes "0 < y" and "- 1074 < ulp_exponent y"
  shows "2 ^ 52 \<le> y / 2 powi (ulp_exponent y)"
proof -
  let ?q = "ulp_exponent y"
  from assms(2) have "?q = ilog2 y - 52" by (simp add: ulp_exponent_def max_def split: if_splits)
  then have "(2::real) powi (?q + 52) = 2 powi (ilog2 y)" by simp
  with ilog2_bounds[OF assms(1)] have "2 powi (?q + 52) \<le> y" by linarith
  moreover have "(2::real) powi (?q + 52) = 2 powi ?q * 2 ^ 52" by (simp add: power_int_add)
  ultimately show ?thesis by (simp add: field_simps)
qed

lemma round_pos_nonneg: "0 \<le> y \<Longrightarrow> 0 \<le> round_pos y"
proof -
  assume "0 \<le> y"
  then have "0 \<le> y / 2 powi (ulp_exponent y)" by simp
  then have "0 \<le> round_half_even (y / 2 powi (ulp_exponent y))"
    using rhe_ge[of 0] by simp
  then show ?thesis by (simp add: round_pos_def Let_def)
qed

lemma round_pos_upper:
  assumes "0 < y"
  shows "round_pos y \<le> 2 powi (ulp_exponent y + 53)"
proof -
  let ?q = "ulp_exponent y"
  have "y / 2 powi ?q \<le> of_int (2 ^ 53)" using scaled_less[OF assms] by simp
  then have "round_half_even (y / 2 powi ?q) \<le> 2 ^ 53" by (rule rhe_le)
  then have "(of_int (round_half_even (y / 2 powi ?q)) :: real) \<le> 2 ^ 53"
    by (metis of_int_le_iff of_int_numeral of_int_power)
  then have "real_of_int (round_half_even (y / 2 powi ?q)) * 2 powi ?q \<le> 2 ^ 53 * 2 powi ?q"
    by (intro mult_right_mono) simp_all
  also have "\<dots> = 2 powi (?q + 53)" by (simp add: power_int_add)
  finally show ?thesis using assms by (simp add: round_pos_def Let_def)
qed

lemma round_pos_lower:
  assumes "0 < y" and "- 1074 < ulp_exponent y"
  shows "2 powi (ulp_exponent y + 52) \<le> round_pos y"
proof -
  let ?q = "ulp_exponent y"
  have "of_int (2 ^ 52) \<le> y / 2 powi ?q" using scaled_ge[OF assms] by simp
  then have "2 ^ 52 \<le> round_half_even (y / 2 powi ?q)" by (rule rhe_ge)
  then have "(2::real) ^ 52 \<le> of_int (round_half_even (y / 2 powi ?q))"
    by (metis of_int_le_iff of_int_numeral of_int_power)
  then have le: "2 ^ 52 * 2 powi ?q \<le> real_of_int (round_half_even (y / 2 powi ?q)) * 2 powi ?q"
    by (intro mult_right_mono) simp_all
  have "2 powi (?q + 52) = (2::real) ^ 52 * 2 powi ?q" by (simp add: power_int_add)
  also note le
  also have "real_of_int (round_half_even (y / 2 powi ?q)) * 2 powi ?q = round_pos y"
    using assms(1) by (simp add: round_pos_def Let_def)
  finally show ?thesis .
qed

lemma round_pos_mono:
  assumes "0 \<le> x" and "x \<le> y"
  shows "round_pos x \<le> round_pos y"
proof (cases "x = 0")
  case True
  then show ?thesis using round_pos_nonneg[of y] assms by (simp add: round_pos_def)
next
  case False
  with assms have x: "0 < x" and y: "0 < y" by linarith+
  let ?p = "ulp_exponent x" and ?q = "ulp_exponent y"
  have pq: "?p \<le> ?q" by (rule ulp_exponent_mono[OF x assms(2)])
  show ?thesis
  proof (cases "?p = ?q")
    case True
    have "x / 2 powi ?q \<le> y / 2 powi ?q" using assms(2) by (simp add: divide_right_mono)
    then have "round_half_even (x / 2 powi ?q) \<le> round_half_even (y / 2 powi ?q)"
      by (rule rhe_mono)
    then have "(of_int (round_half_even (x / 2 powi ?q)) :: real) * 2 powi ?q
               \<le> of_int (round_half_even (y / 2 powi ?q)) * 2 powi ?q"
      by (intro mult_right_mono) simp_all
    then show ?thesis using x y True by (simp add: round_pos_def Let_def)
  next
    case False
    with pq have lt: "?p + 53 \<le> ?q + 52" by simp
    have "- 1074 \<le> ?p" by (simp add: ulp_exponent_def)
    with False pq have q: "- 1074 < ?q" by linarith
    have "round_pos x \<le> 2 powi (?p + 53)" by (rule round_pos_upper[OF x])
    also have "\<dots> \<le> 2 powi (?q + 52)" using lt by (intro power_int_increasing) simp_all
    also have "\<dots> \<le> round_pos y" by (rule round_pos_lower[OF y q])
    finally show ?thesis .
  qed
qed

lemma double_round_mono:
  assumes "x \<le> y"
  shows "double_round x \<le> double_round y"
proof -
  consider "0 \<le> x" | "x < 0" "y < 0" | "x < 0" "0 \<le> y" by linarith
  then show ?thesis
  proof cases
    case 1
    then show ?thesis using assms round_pos_mono[of x y] by (simp add: double_round_def)
  next
    case 2
    then show ?thesis using assms round_pos_mono[of "- y" "- x"] by (simp add: double_round_def)
  next
    case 3
    then show ?thesis
      using round_pos_nonneg[of "- x"] round_pos_nonneg[of y] by (simp add: double_round_def)
  qed
qed

lemma round_pos_of_int_scaled:
  assumes "0 < v" and "v / 2 powi (ulp_exponent v) = of_int k"
  shows "round_pos v = v"
proof -
  have "round_pos v = of_int k * 2 powi (ulp_exponent v)"
    using assms by (simp add: round_pos_def Let_def rhe_of_int)
  also have "\<dots> = v" using assms(2)[symmetric] by simp
  finally show ?thesis .
qed

lemma round_pos_idem:
  assumes "0 \<le> y"
  shows "round_pos (round_pos y) = round_pos y"
proof (cases "round_pos y = 0")
  case True
  then show ?thesis by (simp add: round_pos_def)
next
  case False
  then have y: "0 < y" using assms by (auto simp: round_pos_def less_le)
  let ?q = "ulp_exponent y"
  let ?m = "round_half_even (y / 2 powi ?q)"
  let ?v = "round_pos y"
  have v: "?v = of_int ?m * 2 powi ?q" using y by (simp add: round_pos_def Let_def)
  have vpos: "0 < ?v" using False round_pos_nonneg[OF assms] by linarith
  have q: "- 1074 \<le> ?q" by (simp add: ulp_exponent_def)
  let ?q' = "ulp_exponent ?v"
  have "\<exists>k. ?v / 2 powi ?q' = of_int k"
  proof (cases "?q' \<le> ?q")
    case True
    have "?v / 2 powi ?q' = of_int ?m * 2 powi (?q - ?q')"
      unfolding v by (simp add: power_int_diff)
    also have "\<dots> = of_int ?m * 2 ^ nat (?q - ?q')"
      using True by (simp add: power_int_def)
    also have "\<dots> = of_int (?m * 2 ^ nat (?q - ?q'))" by simp
    finally show ?thesis by blast
  next
    case False
    with q have q': "?q' = ilog2 ?v - 52" "?q + 1 \<le> ?q'"
      by (simp_all add: ulp_exponent_def max_def split: if_splits)
    then have "2 powi (?q + 53) \<le> (2::real) powi (ilog2 ?v)"
      by (intro power_int_increasing) simp_all
    with ilog2_bounds[OF vpos] have lo: "2 powi (?q + 53) \<le> ?v" by linarith
    with round_pos_upper[OF y] have eq: "?v = 2 powi (?q + 53)" by linarith
    have "?q + 53 \<le> ilog2 ?v" using vpos lo by (rule ilog2_ge)
    moreover have "ilog2 ?v < ?q + 54"
    proof (rule ilog2_less[OF vpos])
      have "(2::real) powi (?q + 53) < 2 powi (?q + 54)"
        by (intro power_int_strict_increasing) simp_all
      then show "?v < 2 powi (?q + 54)" using eq by simp
    qed
    ultimately have q1: "?q' = ?q + 1" using q'(1) by linarith
    have "2 powi (?q + 53) / 2 powi (?q + 1) = real_of_int (2 ^ 52)"
      by (simp add: power_int_add)
    with eq q1 have "?v / 2 powi ?q' = real_of_int (2 ^ 52)" by metis
    then show ?thesis by blast
  qed
  then obtain k where "?v / 2 powi ?q' = of_int k" ..
  then show ?thesis by (rule round_pos_of_int_scaled[OF vpos])
qed

lemma double_round_idem: "double_round (double_round x) = double_round x"
proof (cases "x < 0")
  case False
  then have "0 \<le> x" by simp
  from round_pos_nonneg[OF this] round_pos_idem[OF this] False
  show ?thesis by (simp add: double_round_def)
next
  case True
  then have nx: "0 \<le> - x" by simp
  show ?thesis
  proof (cases "round_pos (- x) = 0")
    case z: True
    then show ?thesis using True by (simp add: double_round_def round_pos_def)
  next
    case False
    with round_pos_nonneg[OF nx] have "0 < round_pos (- x)" by linarith
    then show ?thesis using True round_pos_idem[OF nx] by (simp add: double_round_def)
  qed
qed

lemma double_round_zero: "double_round 0 = 0"
  by (simp add: double_round_def round_pos_def)

lemma double_round_ok: "rounding_ok double_round"
  unfolding rounding_ok_def is_float_def
  by (intro conjI monoI allI double_round_mono double_round_idem)

section \<open>SmoothedEstimator\<close>

lemma take_drop_nth:
  assumes "lo + m \<le> length xs"
  shows "take m (drop lo xs) = map (\<lambda>k. xs ! k) [lo..<lo + m]"
proof -
  have "take m (drop lo xs) = take m (drop lo (map (\<lambda>k. xs ! k) [0..<length xs]))"
    by (simp add: map_nth)
  also have "\<dots> = map (\<lambda>k. xs ! k) (take m (drop lo [0..<length xs]))"
    by (simp only: drop_map take_map)
  also have "\<dots> = map (\<lambda>k. xs ! k) [lo..<lo + m]"
    using assms by (simp add: min_def)
  finally show ?thesis .
qed

lemma smoothed_slice:
  assumes "i < length trace" "1 \<le> w"
  shows "py_slice trace (max 0 (int i - w + 1)) (int i + 1)
         = map (\<lambda>k. trace ! k) [nat (max 0 (int i - w + 1))..<Suc i]"
proof -
  let ?lo = "nat (max 0 (int i - w + 1))"
  have lo: "?lo \<le> i" using assms by linarith
  have "py_slice trace (max 0 (int i - w + 1)) (int i + 1) = take (Suc i - ?lo) (drop ?lo trace)"
    using assms by (auto simp: py_slice_def slice_bound_def Let_def max_def min_def nat_add_distrib)
  also have "\<dots> = map (\<lambda>k. trace ! k) [?lo..<?lo + (Suc i - ?lo)]"
    using assms lo by (intro take_drop_nth) simp
  also have "?lo + (Suc i - ?lo) = Suc i" using lo by simp
  finally show ?thesis .
qed

lemma get_smoothed_ok:
  assumes "i < length trace" "1 \<le> w"
  shows "get_smoothed_throughput rnd trace (int i) w = Inr (spec_quality rnd trace i w)"
proof -
  have lo: "nat (max 0 (int i - w + 1)) \<le> i" using assms by linarith
  show ?thesis
    unfolding get_smoothed_throughput_def Let_def smoothed_slice[OF assms]
    using lo by (simp add: statistics_mean_def spec_quality_def spec_smoothed_def Let_def)
qed

text \<open>
  Claim C8. For an index \<open>i\<close> inside the trace and a window of at least 1,
  get\_smoothed\_throughput returns the arithmetic mean of
  \<open>trace[max(0, i-window+1) .. i]\<close> inclusive, as a float; at index 0 that is
  \<open>trace[0]\<close> for every such window, and with window 1 it is \<open>trace[i]\<close> exactly, the
  samples being floats.
\<close>

theorem smoothed_is_window_mean:
  assumes "i < length trace" and "1 \<le> w"
  shows "get_smoothed_throughput rnd trace (int i) w = Inr (rnd (spec_smoothed trace i w))
       \<and> (is_float rnd (trace ! 0) \<longrightarrow> get_smoothed_throughput rnd trace 0 w = Inr (trace ! 0))
       \<and> (is_float rnd (trace ! i)
            \<longrightarrow> get_smoothed_throughput rnd trace (int i) 1 = Inr (trace ! i))"
proof (intro conjI impI)
  show "get_smoothed_throughput rnd trace (int i) w = Inr (rnd (spec_smoothed trace i w))"
    using get_smoothed_ok[OF assms] by (simp add: spec_quality_def)
next
  assume f: "is_float rnd (trace ! 0)"
  have "0 < length trace" using assms(1) by linarith
  from get_smoothed_ok[OF this assms(2), of rnd]
  show "get_smoothed_throughput rnd trace 0 w = Inr (trace ! 0)"
    using assms(2) f by (simp add: spec_quality_def spec_smoothed_def max_def is_float_def)
next
  assume f: "is_float rnd (trace ! i)"
  from get_smoothed_ok[OF assms(1), of 1 rnd]
  show "get_smoothed_throughput rnd trace (int i) 1 = Inr (trace ! i)"
    using f by (simp add: spec_quality_def spec_smoothed_def is_float_def)
qed

theorem smoothed_is_window_mean_witness:
  "2 < length [500, 1000, 2000 :: real] \<and> (1::int) \<le> 2
   \<and> is_float double_round ([500, 1000, 2000] ! 0)
   \<and> is_float double_round ([500, 1000, 2000] ! 2)
   \<and> get_smoothed_throughput double_round [500, 1000, 2000] (int 2) 2 = Inr 1500
   \<and> get_smoothed_throughput double_round [500, 1000, 2000] 0 2 = Inr 500
   \<and> get_smoothed_throughput double_round [500, 1000, 2000] (int 2) 1 = Inr 2000"
proof -
  have h: "2 < length [500, 1000, 2000 :: real]" "(1::int) \<le> 2" by simp_all
  have f: "is_float double_round ([500, 1000, 2000] ! 0)"
    "is_float double_round ([500, 1000, 2000] ! 2)"
    by code_simp+
  have m: "double_round (spec_smoothed [500, 1000, 2000] 2 2) = 1500" by code_simp
  note T = smoothed_is_window_mean[OF h, where rnd = double_round]
  from T m have a: "get_smoothed_throughput double_round [500, 1000, 2000] (int 2) 2 = Inr 1500"
    by simp
  from T f have b: "get_smoothed_throughput double_round [500, 1000, 2000] 0 2 = Inr 500"
    by simp
  from T f have c: "get_smoothed_throughput double_round [500, 1000, 2000] (int 2) 1 = Inr 2000"
    by simp
  from h f a b c show ?thesis by blast
qed

section \<open>PlaybackSimulator\<close>

lemma playback_step_spec:
  assumes "1 \<le> w" "i < length trace" "trace ! i \<noteq> 0"
  shows "playback_step rnd trace sl w i (trace ! i) s
         = Inr (spec_playback_step rnd trace sl w s i)"
  using assms
  by (cases s) (simp add: playback_step_def spec_playback_step_def get_smoothed_ok Let_def)

lemma playback_loop_spec:
  assumes "1 \<le> w"
    and "\<forall>p\<in>set ps. fst p < length trace \<and> snd p = trace ! fst p \<and> snd p \<noteq> 0"
  shows "playback_loop rnd trace sl w ps s
         = Inr (foldl (spec_playback_step rnd trace sl w) s (map fst ps))"
  using assms(2)
proof (induction ps arbitrary: s)
  case Nil
  show ?case by simp
next
  case (Cons p ps)
  obtain i bw where p: "p = (i, bw)" by (cases p)
  from Cons.prems p have h: "i < length trace" "bw = trace ! i" "trace ! i \<noteq> 0" by auto
  have rest: "\<forall>p\<in>set ps. fst p < length trace \<and> snd p = trace ! fst p \<and> snd p \<noteq> 0"
    using Cons.prems by (meson list.set_intros(2))
  show ?case
    using Cons.IH[OF rest] playback_step_spec[OF assms(1) h(1) h(3)] p h(2) by simp
qed

lemma enumerate_trace_ok:
  assumes "0 \<notin> set trace"
  shows "\<forall>p\<in>set (enumerate 0 trace). fst p < length trace \<and> snd p = trace ! fst p \<and> snd p \<noteq> 0"
proof
  fix p assume "p \<in> set (enumerate 0 trace)"
  then have a: "fst p < length trace" "trace ! fst p = snd p"
    by (simp_all add: in_set_enumerate_eq)
  then have "snd p \<in> set trace" by (metis nth_mem)
  with assms a show "fst p < length trace \<and> snd p = trace ! fst p \<and> snd p \<noteq> 0" by auto
qed

lemma collect_smoothed:
  assumes "1 \<le> w" and "\<forall>i\<in>set idxs. i < length trace"
  shows "collect (\<lambda>i. get_smoothed_throughput rnd trace (int i) w) idxs
         = Inr (map (\<lambda>i. spec_quality rnd trace i w) idxs)"
  using assms(2) by (induction idxs) (simp_all add: get_smoothed_ok assms(1))

lemma playback_ok:
  assumes "trace \<noteq> []" and "1 \<le> w" and "0 \<notin> set trace"
  shows "simulate_playback rnd trace sl w
         = Inr (spec_average_bitrate rnd trace w, spec_total_stall rnd trace sl w)"
proof -
  have loop: "playback_loop rnd trace sl w (enumerate 0 trace) (rnd (sl * of_int w), 0)
              = Inr (foldl (spec_playback_step rnd trace sl w) (rnd (sl * of_int w), 0)
                       [0..<length trace])"
    using playback_loop_spec[OF assms(2) enumerate_trace_ok[OF assms(3)]]
    by simp
  have coll: "collect (\<lambda>i. get_smoothed_throughput rnd trace (int i) w) [0..<length trace]
              = Inr (map (\<lambda>i. spec_quality rnd trace i w) [0..<length trace])"
    by (rule collect_smoothed[OF assms(2)]) simp
  show ?thesis
    using assms(1)
    by (simp add: simulate_playback_def loop coll statistics_mean_def
        spec_average_bitrate_def spec_total_stall_def Let_def split: prod.splits)
qed

text \<open>
  Claim C1. For a non-empty trace without a zero sample and a smoothing window of at
  least 1 (and every segment length, in particular a positive one), simulate\_playback
  returns, and its total stall time is the accumulation the specification describes,
  in the arithmetic of the float format: buffer initialised to
  \<open>segment_length * smoothing_window\<close>, one \<open>spec_playback_step\<close> per trace index in
  order, each deciding between stall and no stall on the rounded download time.
\<close>

theorem playback_stall_accumulation:
  assumes "trace \<noteq> []" and "1 \<le> w" and "0 \<notin> set trace"
  shows "\<exists>avg. simulate_playback rnd trace sl w = Inr (avg, spec_total_stall rnd trace sl w)"
  using playback_ok[OF assms] by blast

theorem playback_stall_accumulation_witness:
  "[2000, 2000, 1000, 500 :: real] \<noteq> [] \<and> (1::int) \<le> 3
   \<and> 0 \<notin> set [2000, 2000, 1000, 500 :: real]
   \<and> (\<exists>avg. simulate_playback double_round [2000, 2000, 1000, 500] 2 3 = Inr (avg, 1 / 2 ^ 50))"
proof -
  have h: "[2000, 2000, 1000, 500 :: real] \<noteq> []" "(1::int) \<le> 3"
    "0 \<notin> set [2000, 2000, 1000, 500 :: real]"
    by simp_all
  have ev: "spec_total_stall double_round [2000, 2000, 1000, 500] 2 3 = 1 / 2 ^ 50"
    by code_simp
  from playback_stall_accumulation[OF h, where rnd = double_round and sl = 2]
  have "\<exists>avg. simulate_playback double_round [2000, 2000, 1000, 500] 2 3 = Inr (avg, 1 / 2 ^ 50)"
    unfolding ev .
  with h show ?thesis by blast
qed

lemma quality_mean_differs:
  "spec_average_bitrate double_round [500, 2000] 3
     \<noteq> double_round (sum_list [500, 2000] / real (length [500, 2000 :: real]))
   \<and> spec_average_bitrate id [500, 2000] 3
     \<noteq> sum_list [500, 2000] / real (length [500, 2000 :: real])"
proof
  show "spec_average_bitrate double_round [500, 2000] 3
     \<noteq> double_round (sum_list [500, 2000] / real (length [500, 2000 :: real]))"
    by code_simp
  show "spec_average_bitrate id [500, 2000] 3
     \<noteq> sum_list [500, 2000] / real (length [500, 2000 :: real])"
    by (simp add: spec_average_bitrate_def spec_quality_def spec_smoothed_def
        upt_conv_Cons Let_def)
qed

text \<open>
  Claim C3. Under the same conditions the average bitrate that simulate\_playback returns
  is the mean of \<open>smoothed(trace, i, w)\<close> over all indices of the trace. That mean is
  not the mean of the raw samples: the two differ on some trace, in the arithmetic of
  binary64 and in exact arithmetic alike.
\<close>

theorem average_bitrate_is_mean_of_smoothed:
  assumes "trace \<noteq> []" and "1 \<le> w" and "0 \<notin> set trace"
  shows "(\<exists>stall. simulate_playback rnd trace sl w = Inr (spec_average_bitrate rnd trace w, stall))
       \<and> (\<exists>tr w'. tr \<noteq> [] \<and> 1 \<le> w' \<and> 0 \<notin> set tr
             \<and> spec_average_bitrate double_round tr w'
                 \<noteq> double_round (sum_list tr / real (length tr))
             \<and> spec_average_bitrate id tr w' \<noteq> sum_list tr / real (length tr))"
proof
  show "\<exists>stall. simulate_playback rnd trace sl w = Inr (spec_average_bitrate rnd trace w, stall)"
    using playback_ok[OF assms] by blast
  have "[500, 2000 :: real] \<noteq> [] \<and> (1::int) \<le> 3 \<and> 0 \<notin> set [500, 2000 :: real]"
    by simp
  with quality_mean_differs
  show "\<exists>tr w'. tr \<noteq> [] \<and> 1 \<le> w' \<and> 0 \<notin> set tr
             \<and> spec_average_bitrate double_round tr w'
                 \<noteq> double_round (sum_list tr / real (length tr))
             \<and> spec_average_bitrate id tr w' \<noteq> sum_list tr / real (length tr)"
    by blast
qed

theorem average_bitrate_is_mean_of_smoothed_witness:
  "[500, 2000 :: real] \<noteq> [] \<and> (1::int) \<le> 3 \<and> 0 \<notin> set [500, 2000 :: real]
   \<and> (\<exists>stall. simulate_playback double_round [500, 2000] 2 3 = Inr (875, stall))"
proof -
  have h: "[500, 2000 :: real] \<noteq> []" "(1::int) \<le> 3" "0 \<notin> set [500, 2000 :: real]"
    by simp_all
  have ev: "spec_average_bitrate double_round [500, 2000] 3 = 875" by code_simp
  from average_bitrate_is_mean_of_smoothed[OF h, where rnd = double_round and sl = 2]
  have "\<exists>stall. simulate_playback double_round [500, 2000] 2 3
                 = Inr (spec_average_bitrate double_round [500, 2000] 3, stall)"
    by (rule conjunct1)
  then have "\<exists>stall. simulate_playback double_round [500, 2000] 2 3 = Inr (875, stall)"
    unfolding ev .
  with h show ?thesis by blast
qed

text \<open>
  Claim C9. With \<open>num_steps = 0\<close> the sampler returns the empty trace, and on the empty
  trace simulate\_playback raises (StatisticsError, from the mean over no indices),
  for every segment length and smoothing window.
\<close>

theorem empty_trace_raises:
  "simulate_throughput rnd 0 P states draws k = Inr ([], k)
   \<and> simulate_playback rnd [] segment_length smooth_window = Inl StatisticsError"
  by (simp add: simulate_throughput_def simulate_playback_def enumerate_eq_zip statistics_mean_def)

lemma playback_loop_zero:
  assumes "1 \<le> w"
    and "\<forall>p\<in>set ps. fst p < length trace"
    and "\<exists>p\<in>set ps. snd p = 0"
  shows "playback_loop rnd trace sl w ps s = Inl ZeroDivisionError"
  using assms(2,3)
proof (induction ps arbitrary: s)
  case Nil
  then show ?case by simp
next
  case (Cons p ps)
  obtain i bw where p: "p = (i, bw)" by (cases p)
  obtain b t where s: "s = (b, t)" by (cases s)
  from Cons.prems(1) p have i: "i < length trace" by simp
  note q = get_smoothed_ok[OF i assms(1)]
  show ?case
  proof (cases "bw = 0")
    case True
    then show ?thesis by (simp add: p s playback_step_def q)
  next
    case False
    with Cons.prems(2) p have z: "\<exists>p\<in>set ps. snd p = 0" by auto
    have b: "\<forall>p\<in>set ps. fst p < length trace" using Cons.prems(1) by simp
    have "\<exists>s'. playback_step rnd trace sl w i bw s = Inr s'"
      using False by (simp add: s playback_step_def q Let_def)
    then obtain s' where "playback_step rnd trace sl w i bw s = Inr s'" ..
    then show ?thesis using Cons.IH[OF b z] p by simp
  qed
qed

lemma enumerate_zero:
  assumes "0 \<in> set trace"
  shows "(\<forall>p\<in>set (enumerate 0 trace). fst p < length trace)
       \<and> (\<exists>p\<in>set (enumerate 0 trace). snd p = 0)"
proof
  show "\<forall>p\<in>set (enumerate 0 trace). fst p < length trace"
    by (simp add: in_set_enumerate_eq)
  from assms obtain i where "i < length trace" "trace ! i = 0"
    by (auto simp: in_set_conv_nth)
  then have "(i, 0) \<in> set (enumerate 0 trace)"
    by (simp add: in_set_enumerate_eq)
  then show "\<exists>p\<in>set (enumerate 0 trace). snd p = 0" by force
qed

lemma playback_zero:
  assumes "1 \<le> w" and "0 \<in> set trace"
  shows "simulate_playback rnd trace sl w = Inl ZeroDivisionError"
  using playback_loop_zero[OF assms(1) conjunct1[OF enumerate_zero[OF assms(2)]]
          conjunct2[OF enumerate_zero[OF assms(2)]]]
  by (simp add: simulate_playback_def)

lemma smoothed_errors:
  "get_smoothed_throughput rnd trace idx w = Inl e \<Longrightarrow> e = StatisticsError"
  by (auto simp: get_smoothed_throughput_def statistics_mean_def Let_def split: if_splits)

lemma playback_step_errors:
  "playback_step rnd trace sl w i bw s = Inl e \<Longrightarrow> e = StatisticsError \<or> e = ZeroDivisionError"
  by (cases s)
     (auto simp: playback_step_def Let_def dest: smoothed_errors
       split: sum.splits if_splits prod.splits)

lemma playback_loop_errors:
  "playback_loop rnd trace sl w ps s = Inl e \<Longrightarrow> e = StatisticsError \<or> e = ZeroDivisionError"
proof (induction ps arbitrary: s)
  case Nil
  then show ?case by simp
next
  case (Cons p ps)
  obtain i bw where p: "p = (i, bw)" by (cases p)
  show ?case
  proof (cases "playback_step rnd trace sl w i bw s")
    case (Inl e')
    with Cons.prems p have "e = e'" by simp
    with Inl playback_step_errors show ?thesis by blast
  next
    case (Inr s')
    with Cons.prems p have "playback_loop rnd trace sl w ps s' = Inl e" by simp
    then show ?thesis by (rule Cons.IH)
  qed
qed

lemma collect_errors:
  assumes "\<And>i e. f i = Inl e \<Longrightarrow> e = StatisticsError"
  shows "collect f idxs = Inl e \<Longrightarrow> e = StatisticsError"
  by (induction idxs arbitrary: e) (auto split: sum.splits dest: assms)

lemma playback_errors:
  assumes "simulate_playback rnd trace sl w = Inl e"
  shows "e = StatisticsError \<or> e = ZeroDivisionError"
proof -
  have c: "\<And>e. collect (\<lambda>i. get_smoothed_throughput rnd trace (int i) w) [0..<length trace] = Inl e
            \<Longrightarrow> e = StatisticsError"
    by (rule collect_errors[where f = "\<lambda>i. get_smoothed_throughput rnd trace (int i) w"])
       (rule smoothed_errors)
  have m: "\<And>xs e. statistics_mean rnd xs = Inl e \<Longrightarrow> e = StatisticsError"
    by (auto simp: statistics_mean_def split: if_splits)
  show ?thesis
    using assms
    by (auto simp: simulate_playback_def split: sum.splits prod.splits
        dest: playback_loop_errors c m)
qed

text \<open>
  Claim C6, as the code has it. With a smoothing window of at least 1, a trace that
  contains a zero sample makes simulate\_playback raise Python's ZeroDivisionError at
  the division; simulate\_playback never raises InvalidStateError; and a non-empty
  trace without a zero sample is simulated to the end, whatever the sign of its
  samples.
\<close>

theorem zero_throughput_raises_zero_division:
  "(1 \<le> w \<and> 0 \<in> set trace \<longrightarrow> simulate_playback rnd trace sl w = Inl ZeroDivisionError)
   \<and> simulate_playback rnd trace sl w \<noteq> Inl InvalidStateError
   \<and> (1 \<le> w \<and> trace \<noteq> [] \<and> 0 \<notin> set trace
        \<longrightarrow> (\<exists>outcome. simulate_playback rnd trace sl w = Inr outcome))"
proof (intro conjI impI)
  assume "1 \<le> w \<and> 0 \<in> set trace"
  then show "simulate_playback rnd trace sl w = Inl ZeroDivisionError"
    using playback_zero by blast
next
  show "simulate_playback rnd trace sl w \<noteq> Inl InvalidStateError"
    using playback_errors[of rnd trace sl w InvalidStateError] by auto
next
  assume "1 \<le> w \<and> trace \<noteq> [] \<and> 0 \<notin> set trace"
  then show "\<exists>outcome. simulate_playback rnd trace sl w = Inr outcome"
    using playback_ok[of trace w rnd sl] by blast
qed

theorem zero_throughput_raises_zero_division_witness:
  "(1::int) \<le> 3 \<and> 0 \<in> set [500, 0, 2000 :: real]
   \<and> simulate_playback double_round [500, 0, 2000] 2 3 = Inl ZeroDivisionError
   \<and> [-500 :: real] \<noteq> [] \<and> 0 \<notin> set [-500 :: real]
   \<and> (\<exists>outcome. simulate_playback double_round [-500] 2 3 = Inr outcome)"
  using zero_throughput_raises_zero_division[of 3 "[500, 0, 2000]" double_round 2]
    zero_throughput_raises_zero_division[of 3 "[-500]" double_round 2]
  by simp

text \<open>
  Claim C6 as stated fails: on the trace \<open>[0]\<close> the exception is ZeroDivisionError,
  not InvalidStateError, and on the trace \<open>[-500]\<close> no exception is raised at all.
\<close>

theorem invalid_state_counterexample:
  "simulate_playback double_round [0] 2 1 = Inl ZeroDivisionError
   \<and> simulate_playback double_round [0] 2 1 \<noteq> Inl InvalidStateError
   \<and> simulate_playback double_round [-500] 2 1 = Inr (-500, 0)"
  by code_simp

section \<open>ThroughputChain\<close>

lemma find_map_Suc:
  "List.find Q (map f xs) = map_option f (List.find (\<lambda>x. Q (f x)) xs)"
  by (induction xs) auto

lemma scan_row_find:
  "scan_row rnd r cum j current ps =
     (case List.find (\<lambda>i. r < foldl (\<lambda>c p. rnd (c + p)) cum (take (Suc i) ps)) [0..<length ps] of
        Some i \<Rightarrow> j + i
      | None \<Rightarrow> current)"
proof (induction ps arbitrary: cum j)
  case Nil
  show ?case by simp
next
  case (Cons p ps)
  have upt: "[0..<length (p # ps)] = 0 # map Suc [0..<length ps]"
    by (simp add: upt_conv_Cons map_Suc_upt del: upt_Suc)
  show ?case
    unfolding upt
    by (simp add: Cons.IH find_map_Suc Let_def split: option.splits)
qed

lemma scan_row_spec: "scan_row rnd r 0 0 current row = spec_next rnd row r current"
  by (simp add: scan_row_find spec_next_def cum_prob_def running_sum_def split: option.splits)

lemma spec_next_range: "spec_next rnd row r c = c \<or> spec_next rnd row r c < length row"
proof (cases "List.find (\<lambda>j. r < cum_prob rnd row j) [0..<length row]")
  case None
  then show ?thesis by (simp add: spec_next_def)
next
  case (Some j)
  then have "j \<in> set [0..<length row]"
    by (auto simp: find_Some_iff)
  with Some show ?thesis by (simp add: spec_next_def)
qed

lemma spec_next_first:
  assumes "j < length row" and "r < cum_prob rnd row j" and "\<forall>i<j. cum_prob rnd row i \<le> r"
  shows "spec_next rnd row r c = j"
proof -
  have "List.find (\<lambda>j. r < cum_prob rnd row j) [0..<length row] = Some j"
    unfolding find_Some_iff using assms
    by (intro exI[of _ j]) (auto simp: not_less)
  then show ?thesis by (simp add: spec_next_def)
qed

text \<open>
  Adding non-negative terms in a monotone rounding whose results are floats never
  lowers a running sum that is a float.
\<close>

lemma running_from:
  assumes "rounding_ok rnd"
  shows "list_all (\<lambda>p. 0 \<le> p) ps \<Longrightarrow> is_float rnd c
         \<Longrightarrow> c \<le> foldl (\<lambda>c p. rnd (c + p)) c ps"
proof (induction ps arbitrary: c)
  case Nil
  show ?case by simp
next
  case (Cons p ps)
  from Cons.prems have p: "0 \<le> p" and ps: "list_all (\<lambda>p. 0 \<le> p) ps" by simp_all
  from assms have m: "mono rnd" and f: "is_float rnd (rnd (c + p))"
    by (simp_all add: rounding_ok_def)
  have "c = rnd c" using Cons.prems(2) by (simp add: is_float_def)
  also have "\<dots> \<le> rnd (c + p)" using p by (intro monoD[OF m]) simp
  also have "\<dots> \<le> foldl (\<lambda>c p. rnd (c + p)) (rnd (c + p)) ps" by (rule Cons.IH[OF ps f])
  finally show ?case by simp
qed

lemma running_float:
  assumes "rounding_ok rnd" and "ps \<noteq> []"
  shows "is_float rnd (foldl (\<lambda>c p. rnd (c + p)) c ps)"
proof -
  from assms(2) obtain ys y where "ps = ys @ [y]" by (cases ps rule: rev_cases) simp_all
  then show ?thesis using assms(1) by (simp add: rounding_ok_def)
qed

lemma running_prefix:
  assumes "rounding_ok rnd" and "nonneg_row row" and "take n row \<noteq> []"
  shows "running_sum rnd (take n row) \<le> running_sum rnd (take n row @ drop n row)"
proof -
  have nn: "list_all (\<lambda>p. 0 \<le> p) (drop n row)"
    using assms(2) unfolding nonneg_row_def list_all_iff by (meson in_set_dropD)
  have fl: "is_float rnd (foldl (\<lambda>c p. rnd (c + p)) 0 (take n row))"
    by (rule running_float[OF assms(1) assms(3)])
  have "running_sum rnd (take n row @ drop n row)
        = foldl (\<lambda>c p. rnd (c + p)) (foldl (\<lambda>c p. rnd (c + p)) 0 (take n row)) (drop n row)"
    unfolding running_sum_def by (rule foldl_append)
  with running_from[OF assms(1) nn fl] show ?thesis
    by (simp only: running_sum_def)
qed

lemma cum_le_total:
  assumes "rounding_ok rnd" and "nonneg_row row" and "j < length row"
  shows "cum_prob rnd row j \<le> row_total rnd row"
proof -
  have ne: "take (Suc j) row \<noteq> []" using assms(3) by auto
  from running_prefix[OF assms(1,2) ne] show ?thesis
    by (simp add: cum_prob_def row_total_def)
qed

lemma cum_prob_mono:
  assumes "rounding_ok rnd" and "nonneg_row row" and "i \<le> j" and "j < length row"
  shows "cum_prob rnd row i \<le> cum_prob rnd row j"
proof -
  let ?pre = "take (Suc j) row"
  have i: "i < length ?pre" using assms(3,4) by simp
  have nn: "nonneg_row ?pre"
    using assms(2) unfolding nonneg_row_def list_all_iff by (meson in_set_takeD)
  have "cum_prob rnd ?pre i \<le> row_total rnd ?pre" by (rule cum_le_total[OF assms(1) nn i])
  moreover have "take (Suc i) ?pre = take (Suc i) row" using assms(3) by (simp add: min_def)
  ultimately show ?thesis by (simp add: cum_prob_def row_total_def)
qed

lemma spec_next_tail:
  assumes "rounding_ok rnd" and "nonneg_row row" and "row_total rnd row \<le> r"
  shows "spec_next rnd row r c = c"
proof -
  have "\<And>j. j < length row \<Longrightarrow> \<not> r < cum_prob rnd row j"
    using cum_le_total[OF assms(1,2)] assms(3) by fastforce
  then have "List.find (\<lambda>j. r < cum_prob rnd row j) [0..<length row] = None"
    by (simp add: find_None_iff)
  then show ?thesis by (simp add: spec_next_def)
qed

lemma sample_step_ok:
  assumes "c < length states" and "c < length P"
  shows "sample_step rnd P states draws (trace, c, k)
         = Inr (trace @ [states ! c], spec_next rnd (P ! c) (draws k) c, Suc k)"
  using assms by (simp add: sample_step_def scan_row_spec Let_def)

lemma sample_step_Inr:
  assumes "sample_step rnd P states draws (trace, c, k) = Inr (trace', c', k')"
  shows "c < length states \<and> c < length P \<and> trace' = trace @ [states ! c]
         \<and> c' = spec_next rnd (P ! c) (draws k) c \<and> k' = Suc k"
  using assms
  by (auto simp: sample_step_def scan_row_spec Let_def split: if_splits)

lemma sample_step_errors: "sample_step rnd P states draws s = Inl e \<Longrightarrow> e = IndexError"
  by (cases s) (auto simp: sample_step_def Let_def split: if_splits)

lemma sample_loop_errors: "sample_loop n rnd P states draws s = Inl e \<Longrightarrow> e = IndexError"
proof (induction n arbitrary: s)
  case 0
  then show ?case by simp
next
  case (Suc n)
  show ?case
  proof (cases "sample_step rnd P states draws s")
    case (Inl e')
    with Suc.prems have "e = e'" by simp
    with Inl sample_step_errors show ?thesis by blast
  next
    case (Inr s')
    with Suc.prems have "sample_loop n rnd P states draws s' = Inl e" by simp
    then show ?thesis by (rule Suc.IH)
  qed
qed

lemma next_valid:
  assumes "rows_fit P states" and "c < length states" and "c < length P"
  shows "spec_next rnd (P ! c) r c < length states"
proof -
  have "P ! c \<in> set P" using assms(3) by simp
  then have "length (P ! c) \<le> length states"
    using assms(1) by (simp add: rows_fit_def list_all_iff)
  with spec_next_range[of rnd "P ! c" r c] assms(2) show ?thesis by auto
qed

lemma spec_current_shift:
  "spec_current rnd P draws k c (Suc n)
   = spec_current rnd P draws (Suc k) (spec_next rnd (P ! c) (draws k) c) n"
  by (induction n) (simp_all add: Let_def)

lemma sample_loop_spec:
  assumes "rows_fit P states" and "length states \<le> length P"
  shows "c < length states \<Longrightarrow>
         sample_loop n rnd P states draws (trace, c, k)
         = Inr (trace @ map (\<lambda>i. states ! spec_current rnd P draws k c i) [0..<n],
                spec_current rnd P draws k c n, k + n)"
proof (induction n arbitrary: trace c k)
  case 0
  show ?case by simp
next
  case (Suc n)
  let ?c' = "spec_next rnd (P ! c) (draws k) c"
  have cP: "c < length P" using Suc.prems assms(2) by simp
  have c': "?c' < length states" by (rule next_valid[OF assms(1) Suc.prems cP])
  have "sample_loop (Suc n) rnd P states draws (trace, c, k)
        = sample_loop n rnd P states draws (trace @ [states ! c], ?c', Suc k)"
    by (simp add: sample_step_ok[OF Suc.prems cP])
  also have "\<dots> = Inr ((trace @ [states ! c])
                  @ map (\<lambda>i. states ! spec_current rnd P draws (Suc k) ?c' i) [0..<n],
                spec_current rnd P draws (Suc k) ?c' n, Suc k + n)"
    by (rule Suc.IH[OF c'])
  also have "(trace @ [states ! c])
               @ map (\<lambda>i. states ! spec_current rnd P draws (Suc k) ?c' i) [0..<n]
             = trace @ map (\<lambda>i. states ! spec_current rnd P draws k c i) [0..<Suc n]"
    by (simp only: map_upt_Suc spec_current_shift[symmetric] append_assoc append_Cons append_Nil
        spec_current.simps(1))
  also have "spec_current rnd P draws (Suc k) ?c' n = spec_current rnd P draws k c (Suc n)"
    by (simp only: spec_current_shift)
  finally show ?case by simp
qed

lemma sampler_ok:
  assumes "chain_ok P states"
  shows "simulate_throughput rnd num_steps P states draws k
         = Inr (spec_trace rnd P states draws k (nat num_steps), k + nat num_steps)"
proof -
  from assms have a: "rows_fit P states" "length states \<le> length P" "0 < length states"
    by (simp_all add: chain_ok_def)
  show ?thesis
    by (simp add: simulate_throughput_def sample_loop_spec[OF a] spec_trace_def)
qed

lemma interval_first:
  assumes "rounding_ok rnd" and "nonneg_row row" and "j < length row"
    and "j = 0 \<or> cum_prob rnd row (j - 1) \<le> r"
  shows "\<forall>i<j. cum_prob rnd row i \<le> r"
proof (intro allI impI)
  fix i assume "i < j"
  then have le: "i \<le> j - 1" and j: "j \<noteq> 0" by simp_all
  have "j - 1 < length row" using assms(3) by simp
  from cum_prob_mono[OF assms(1,2) le this] assms(4) j
  show "cum_prob rnd row i \<le> r" by simp
qed

lemma sample_loop_inv:
  assumes "rows_fit P states"
  shows "sample_loop n rnd P states draws (t, c, k) = Inr (t', c', k') \<Longrightarrow>
         (\<exists>ys. t' = t @ ys \<and> set ys \<subseteq> set states \<and> length ys = n
               \<and> (0 < n \<longrightarrow> ys ! 0 = states ! c))
         \<and> (c < length states \<or> 0 < n \<longrightarrow> c' < length states)"
proof (induction n arbitrary: t c k)
  case 0
  then show ?case by simp
next
  case (Suc n)
  from Suc.prems obtain s1 where s1: "sample_step rnd P states draws (t, c, k) = Inr s1"
    by (cases "sample_step rnd P states draws (t, c, k)") simp_all
  obtain t1 c1 k1 where s1eq: "s1 = (t1, c1, k1)" by (cases s1)
  from sample_step_Inr[OF s1[unfolded s1eq]]
  have st: "c < length states" "c < length P" "t1 = t @ [states ! c]"
    "c1 = spec_next rnd (P ! c) (draws k) c" by simp_all
  have c1: "c1 < length states"
    unfolding st(4) by (rule next_valid[OF assms st(1) st(2)])
  from Suc.prems s1 s1eq have "sample_loop n rnd P states draws (t1, c1, k1) = Inr (t', c', k')"
    by simp
  from Suc.IH[OF this] c1 obtain ys where
    ys: "t' = t1 @ ys" "set ys \<subseteq> set states" "length ys = n" and c': "c' < length states"
    by blast
  have "t' = t @ (states ! c # ys)" using ys(1) st(3) by simp
  moreover have "set (states ! c # ys) \<subseteq> set states" using ys(2) st(1) by simp
  moreover have "length (states ! c # ys) = Suc n" using ys(3) by simp
  moreover have "(states ! c # ys) ! 0 = states ! c" by simp
  ultimately show ?case using c' by blast
qed

text \<open>
  Claim C2. On a well-formed chain and for \<open>num_steps \<ge> 0\<close> the sampler returns the
  trace of the specification's chain: it starts in state index 0 and, at each step,
  emits \<open>states[current]\<close>, reads one draw \<open>r\<close> and moves to the first index of the
  current row whose cumulative probability, added up in the float format, exceeds
  \<open>r\<close>. The trace has \<open>num_steps\<close> samples and \<open>num_steps\<close> draws are read. The scan of
  a row is the first-exceeding-index rule, and in a row of non-negative probabilities
  every draw in the half-open interval from \<open>cum (j - 1)\<close> to \<open>cum j\<close> selects \<open>j\<close>.
\<close>

theorem sampler_follows_chain:
  assumes "chain_ok P states" and "0 \<le> num_steps"
  shows "simulate_throughput rnd num_steps P states draws k
           = Inr (spec_trace rnd P states draws k (nat num_steps), k + nat num_steps)
       \<and> int (length (spec_trace rnd P states draws k (nat num_steps))) = num_steps
       \<and> scan_row rnd r 0 0 c row = spec_next rnd row r c
       \<and> (rounding_ok rnd \<and> nonneg_row row \<and> j < length row
            \<and> (j = 0 \<or> cum_prob rnd row (j - 1) \<le> r) \<and> r < cum_prob rnd row j
            \<longrightarrow> scan_row rnd r 0 0 c row = j)"
proof (intro conjI impI)
  show "simulate_throughput rnd num_steps P states draws k
           = Inr (spec_trace rnd P states draws k (nat num_steps), k + nat num_steps)"
    by (rule sampler_ok[OF assms(1)])
  show "int (length (spec_trace rnd P states draws k (nat num_steps))) = num_steps"
    using assms(2) by (simp add: spec_trace_def)
  show "scan_row rnd r 0 0 c row = spec_next rnd row r c" by (rule scan_row_spec)
next
  assume h: "rounding_ok rnd \<and> nonneg_row row \<and> j < length row
            \<and> (j = 0 \<or> cum_prob rnd row (j - 1) \<le> r) \<and> r < cum_prob rnd row j"
  then have "\<forall>i<j. cum_prob rnd row i \<le> r" using interval_first by blast
  with h show "scan_row rnd r 0 0 c row = j"
    by (simp add: scan_row_spec spec_next_first)
qed

theorem sampler_follows_chain_witness:
  "chain_ok default_P default_states \<and> (0::int) \<le> 2
   \<and> simulate_throughput double_round 2 default_P default_states
        (replay [2026619832316723 / 2251799813685248]) 0 = Inr ([500, 2000], 2)
   \<and> rounding_ok double_round \<and> nonneg_row (default_P ! 0) \<and> 2 < length (default_P ! 0)
   \<and> cum_prob double_round (default_P ! 0) (2 - 1) \<le> 2026619832316723 / 2251799813685248
   \<and> 2026619832316723 / 2251799813685248 < cum_prob double_round (default_P ! 0) 2
   \<and> scan_row double_round (2026619832316723 / 2251799813685248) 0 0 0 (default_P ! 0) = 2"
proof -
  have ok: "chain_ok default_P default_states" by code_simp
  have le: "(0::int) \<le> 2" by simp
  have tr: "spec_trace double_round default_P default_states
              (replay [2026619832316723 / 2251799813685248]) 0 (nat 2) = [500, 2000]"
    by code_simp
  have row: "nonneg_row (default_P ! 0)" "2 < length (default_P ! 0)"
    "cum_prob double_round (default_P ! 0) (2 - 1) \<le> 2026619832316723 / 2251799813685248"
    "2026619832316723 / 2251799813685248 < cum_prob double_round (default_P ! 0) 2"
    by code_simp+
  note T = sampler_follows_chain[OF ok le, where rnd = double_round
      and draws = "replay [2026619832316723 / 2251799813685248]" and k = 0
      and r = "2026619832316723 / 2251799813685248" and c = 0 and row = "default_P ! 0"
      and j = 2]
  from T have "simulate_throughput double_round 2 default_P default_states
        (replay [2026619832316723 / 2251799813685248]) 0
      = Inr (spec_trace double_round default_P default_states
              (replay [2026619832316723 / 2251799813685248]) 0 (nat 2), 0 + nat 2)"
    by (rule conjunct1)
  then have a: "simulate_throughput double_round 2 default_P default_states
        (replay [2026619832316723 / 2251799813685248]) 0 = Inr ([500, 2000], 2)"
    unfolding tr by simp
  from T row double_round_ok
  have b: "scan_row double_round (2026619832316723 / 2251799813685248) 0 0 0 (default_P ! 0) = 2"
    by blast
  from ok le a row double_round_ok b show ?thesis by blast
qed

text \<open>
  Claim C5. When the probabilities of the current row are non-negative and the draw is
  at least the row's total cumulative sum, as the code adds it up (the uncovered tail
  of a row that sums to less than 1), the scan falls off the end of the row: the step
  does not fail, it emits \<open>states[current]\<close> and the chain stays in the state it was
  in.
\<close>

theorem uncovered_tail_keeps_state:
  assumes "rounding_ok rnd" and "current < length states" and "current < length P"
    and "nonneg_row (P ! current)" and "row_total rnd (P ! current) \<le> draws k"
  shows "scan_row rnd (draws k) 0 0 current (P ! current) = current
       \<and> sample_step rnd P states draws (trace, current, k)
           = Inr (trace @ [states ! current], current, Suc k)"
  using assms
  by (simp add: sample_step_ok scan_row_spec spec_next_tail)

theorem uncovered_tail_keeps_state_witness:
  "rounding_ok double_round \<and> (0::nat) < length default_states \<and> (0::nat) < length default_P
   \<and> nonneg_row (default_P ! 0)
   \<and> row_total double_round (default_P ! 0) < 1
   \<and> row_total double_round (default_P ! 0) \<le> replay [1 - 1 / 2 ^ 53] 0
   \<and> sample_step double_round default_P default_states (replay [1 - 1 / 2 ^ 53]) ([], 0, 0)
       = Inr ([500], 0, 1)"
proof -
  have h: "(0::nat) < length default_states" "(0::nat) < length default_P"
    "nonneg_row (default_P ! 0)"
    "row_total double_round (default_P ! 0) \<le> replay [1 - 1 / 2 ^ 53] 0"
    by code_simp+
  have lt: "row_total double_round (default_P ! 0) < 1" by code_simp
  have s: "[] @ [default_states ! 0] = [500 :: real]" by (simp add: default_states_def)
  from uncovered_tail_keeps_state[where rnd = double_round and current = 0
      and states = default_states and P = default_P and draws = "replay [1 - 1 / 2 ^ 53]"
      and k = 0 and trace = "[]", OF double_round_ok h]
  have "sample_step double_round default_P default_states (replay [1 - 1 / 2 ^ 53]) ([], 0, 0)
        = Inr ([] @ [default_states ! 0], 0, Suc 0)"
    by (rule conjunct2)
  then have "sample_step double_round default_P default_states (replay [1 - 1 / 2 ^ 53]) ([], 0, 0)
        = Inr ([500], 0, 1)"
    unfolding s by simp
  with double_round_ok h lt show ?thesis by blast
qed

text \<open>
  The tail is that of the rounded running sum, not of the exact sum: on the row of the
  floats nearest to 0.06, 0.47 and 0.06 the running sum is above the float nearest to
  0.59 although the exact sum of the three floats is that float, and on that draw the
  chain moves to column 2.
\<close>

lemma rounded_total_exceeds_exact:
  "sum_list (map double_round [6 / 100, 47 / 100, 6 / 100]) = double_round (59 / 100)
   \<and> double_round (59 / 100) < row_total double_round (map double_round [6 / 100, 47 / 100, 6 / 100])
   \<and> scan_row double_round (double_round (59 / 100)) 0 0 0
         (map double_round [6 / 100, 47 / 100, 6 / 100]) = 2"
  by code_simp

text \<open>
  Claim C7, as the code has it. The sampler checks no precondition and never raises
  ConfigurationError: a negative \<open>num_steps\<close> gives the empty trace and reads no
  draw; the only exception the sampler can raise is IndexError; and on a chain whose
  rows are no longer than the state set (they may be shorter), with a non-empty state
  set and a row for every state, it returns a trace of \<open>num_steps\<close> samples.
\<close>

theorem sampler_never_configuration_error:
  "(num_steps < 0 \<longrightarrow> simulate_throughput rnd num_steps P states draws k = Inr ([], k))
   \<and> simulate_throughput rnd num_steps P states draws k \<noteq> Inl ConfigurationError
   \<and> (\<forall>e. simulate_throughput rnd num_steps P states draws k = Inl e \<longrightarrow> e = IndexError)
   \<and> (chain_ok P states \<longrightarrow>
        (\<exists>trace. simulate_throughput rnd num_steps P states draws k
                   = Inr (trace, k + nat num_steps)
                 \<and> length trace = nat num_steps))"
proof -
  have err: "\<And>e. simulate_throughput rnd num_steps P states draws k = Inl e \<Longrightarrow> e = IndexError"
    by (auto simp: simulate_throughput_def split: sum.splits dest: sample_loop_errors)
  have neg: "num_steps < 0 \<longrightarrow> simulate_throughput rnd num_steps P states draws k = Inr ([], k)"
    by (simp add: simulate_throughput_def)
  have ok: "chain_ok P states \<longrightarrow>
        (\<exists>trace. simulate_throughput rnd num_steps P states draws k
                   = Inr (trace, k + nat num_steps)
                 \<and> length trace = nat num_steps)"
    using sampler_ok[of P states rnd num_steps draws k] by (simp add: spec_trace_def)
  from err have "simulate_throughput rnd num_steps P states draws k \<noteq> Inl ConfigurationError"
    by fastforce
  with err neg ok show ?thesis by blast
qed

theorem sampler_never_configuration_error_witness:
  "(-1 :: int) < 0
   \<and> simulate_throughput double_round (-1) [[0.5], [0.5]] [500, 1000] (replay [0]) 0
       = Inr ([], 0)
   \<and> chain_ok [[0.5], [0.5]] [500, 1000]
   \<and> (\<exists>trace. simulate_throughput double_round 2 [[0.5], [0.5]] [500, 1000] (replay [0]) 0
                = Inr (trace, 2)
              \<and> length trace = 2)"
  using sampler_never_configuration_error[of "-1" double_round "[[0.5], [0.5]]" "[500, 1000]"
      "replay [0]" 0]
    sampler_never_configuration_error[of 2 double_round "[[0.5], [0.5]]" "[500, 1000]"
      "replay [0]" 0]
  by (simp add: chain_ok_def rows_fit_def numeral_2_eq_2)

text \<open>
  Claim C7 as stated fails: with \<open>num_steps = -1\<close> the sampler returns the empty
  trace; with rows shorter than the state set it returns a trace; with a row longer
  than the state set the exception is IndexError, not ConfigurationError.
\<close>

theorem configuration_error_counterexample:
  "simulate_throughput double_round (-1) [[1]] [500] (replay [0]) 0 = Inr ([], 0)
   \<and> simulate_throughput double_round 2 [[0.5], [0.5]] [500, 1000] (replay [0]) 0
       = Inr ([500, 500], 2)
   \<and> simulate_throughput double_round 2 [[0.5, 0.25, 0.25]] [500] (replay [0.625]) 0
       = Inl IndexError"
  by code_simp

text \<open>
  Claim C10. When no row of the matrix is longer than the state set, then after any
  number \<open>n \<le> num_steps\<close> of iterations of the sampling loop every element of the
  trace so far is an element of \<open>states\<close>, its first element (if any) is
  \<open>states[0]\<close>, and the current state index is a valid index into a non-empty state
  set; the same holds of the trace that simulate\_throughput returns. With a non-empty
  state set and a row for every state the sampler does return.
\<close>

theorem trace_elements_are_states:
  assumes "rows_fit P states" and "0 \<le> num_steps"
  shows "(\<forall>n trace current k'. n \<le> nat num_steps
            \<longrightarrow> sample_loop n rnd P states draws ([], 0, k) = Inr (trace, current, k')
            \<longrightarrow> set trace \<subseteq> set states \<and> (1 \<le> n \<longrightarrow> trace ! 0 = states ! 0)
                \<and> (states \<noteq> [] \<longrightarrow> current < length states))
       \<and> (\<forall>trace k'. simulate_throughput rnd num_steps P states draws k = Inr (trace, k')
            \<longrightarrow> set trace \<subseteq> set states \<and> (1 \<le> num_steps \<longrightarrow> trace ! 0 = states ! 0))
       \<and> (states \<noteq> [] \<and> length states \<le> length P
            \<longrightarrow> (\<exists>trace. simulate_throughput rnd num_steps P states draws k
                           = Inr (trace, k + nat num_steps)))"
proof (intro conjI allI impI)
  fix n trace current k'
  assume run: "sample_loop n rnd P states draws ([], 0, k) = Inr (trace, current, k')"
  note inv = sample_loop_inv[OF assms(1) run]
  show "set trace \<subseteq> set states" using inv by auto
  show "trace ! 0 = states ! 0" if "1 \<le> n" using inv that by auto
  show "current < length states" if "states \<noteq> []" using inv that by auto
next
  fix trace k'
  assume "simulate_throughput rnd num_steps P states draws k = Inr (trace, k')"
  then obtain current where
    run: "sample_loop (nat num_steps) rnd P states draws ([], 0, k) = Inr (trace, current, k')"
    by (auto simp: simulate_throughput_def split: sum.splits)
  note inv = sample_loop_inv[OF assms(1) run]
  show "set trace \<subseteq> set states" using inv by auto
  show "trace ! 0 = states ! 0" if "1 \<le> num_steps" using inv that by auto
next
  assume "states \<noteq> [] \<and> length states \<le> length P"
  with assms(1) have "chain_ok P states" by (simp add: chain_ok_def)
  from sampler_ok[OF this]
  show "\<exists>trace. simulate_throughput rnd num_steps P states draws k
                  = Inr (trace, k + nat num_steps)"
    by blast
qed

theorem trace_elements_are_states_witness:
  "rows_fit default_P default_states \<and> (0::int) \<le> 3
   \<and> sample_loop 3 double_round default_P default_states (replay [3 / 4, 15 / 16, 1 / 16])
        ([], 0, 0) = Inr ([500, 1000, 2000], 0, 3)
   \<and> set [500, 1000, 2000] \<subseteq> set default_states
   \<and> [500, 1000, 2000] ! 0 = default_states ! 0
   \<and> (0::nat) < length default_states"
proof -
  have run: "sample_loop 3 double_round default_P default_states (replay [3 / 4, 15 / 16, 1 / 16])
        ([], 0, 0) = Inr ([500, 1000, 2000], 0, 3)"
    by code_simp
  have fit: "rows_fit default_P default_states" by code_simp
  have le: "(0::int) \<le> 3" by simp
  have ne: "default_states \<noteq> []" by (simp add: default_states_def)
  from trace_elements_are_states[OF fit le, of double_round "replay [3 / 4, 15 / 16, 1 / 16]" 0]
  have "3 \<le> nat 3
        \<longrightarrow> sample_loop 3 double_round default_P default_states
              (replay [3 / 4, 15 / 16, 1 / 16]) ([], 0, 0) = Inr ([500, 1000, 2000], 0, 3)
        \<longrightarrow> set [500, 1000, 2000] \<subseteq> set default_states
            \<and> ((1::nat) \<le> 3 \<longrightarrow> [500, 1000, 2000] ! 0 = default_states ! 0)
            \<and> (default_states \<noteq> [] \<longrightarrow> (0::nat) < length default_states)"
    by blast
  with run fit le ne show ?thesis by simp
qed

section \<open>MonteCarloRunner and ParameterSweepDriver\<close>

lemma sampler_trace_props:
  assumes "chain_ok P states"
  shows "\<exists>trace. simulate_throughput rnd num_steps P states draws k = Inr (trace, k + nat num_steps)
                 \<and> length trace = nat num_steps \<and> set trace \<subseteq> set states"
proof -
  from assms have a: "rows_fit P states" by (simp add: chain_ok_def)
  let ?t = "spec_trace rnd P states draws k (nat num_steps)"
  have run: "simulate_throughput rnd num_steps P states draws k = Inr (?t, k + nat num_steps)"
    by (rule sampler_ok[OF assms])
  then obtain c where "sample_loop (nat num_steps) rnd P states draws ([], 0, k) = Inr (?t, c, k + nat num_steps)"
    by (auto simp: simulate_throughput_def split: sum.splits)
  from sample_loop_inv[OF a this] have "set ?t \<subseteq> set states" by auto
  moreover have "length ?t = nat num_steps" by (simp add: spec_trace_def)
  ultimately show ?thesis using run by blast
qed

lemma monte_carlo_loop_ok:
  assumes "chain_ok P states" and "0 \<notin> set states" and "1 \<le> num_steps" and "1 \<le> w"
  shows "\<exists>res k'. monte_carlo_loop n rnd P states num_steps sl w draws k results = Inr (results @ res, k')
                  \<and> length res = n"
proof (induction n arbitrary: k results)
  case 0
  show ?case by simp
next
  case (Suc n)
  from sampler_trace_props[OF assms(1), of rnd num_steps draws k] obtain trace where
    t: "simulate_throughput rnd num_steps P states draws k = Inr (trace, k + nat num_steps)"
       "length trace = nat num_steps" "set trace \<subseteq> set states"
    by blast
  have ne: "trace \<noteq> []" using t(2) assms(3) by auto
  have nz: "0 \<notin> set trace" using t(3) assms(2) by auto
  note pb = playback_ok[OF ne assms(4) nz, where sl = sl and rnd = rnd]
  from Suc.IH[of "k + nat num_steps" "results @ [(spec_average_bitrate rnd trace w, spec_total_stall rnd trace sl w)]"]
  obtain res k' where
    r: "monte_carlo_loop n rnd P states num_steps sl w draws (k + nat num_steps)
          (results @ [(spec_average_bitrate rnd trace w, spec_total_stall rnd trace sl w)])
        = Inr ((results @ [(spec_average_bitrate rnd trace w, spec_total_stall rnd trace sl w)]) @ res, k')"
       "length res = n"
    by blast
  have "monte_carlo_loop (Suc n) rnd P states num_steps sl w draws k results
        = Inr (results @ ((spec_average_bitrate rnd trace w, spec_total_stall rnd trace sl w) # res), k')"
    by (simp add: t(1) pb r(1))
  moreover have "length ((spec_average_bitrate rnd trace w, spec_total_stall rnd trace sl w) # res) = Suc n"
    using r(2) by simp
  ultimately show ?case by blast
qed

lemma sweep_cell_ok:
  assumes "chain_ok P states" and "0 \<notin> set states" and "1 \<le> num_steps" and "1 \<le> w"
    and "2 \<le> runs"
  shows "\<exists>row k'. sweep_cell rnd P states num_steps runs draws seg_len w k = Inr (row, k')"
proof -
  from monte_carlo_loop_ok[OF assms(1-4), of "nat runs" rnd seg_len draws k "[]"]
  obtain data k' where
    d: "monte_carlo rnd P states num_steps seg_len w runs draws k = Inr (data, k')"
       "length data = nat runs"
    by (auto simp: monte_carlo_def)
  have len: "2 \<le> length data" using d(2) assms(5) by simp
  then have ne: "data \<noteq> []" by auto
  show ?thesis
    using len ne
    by (simp add: sweep_cell_def d(1) statistics_mean_def statistics_stdev_def Let_def)
qed

lemma sweep_cell_key:
  assumes "sweep_cell rnd P states num_steps runs draws seg_len w k = Inr (row, k')"
  shows "row_key row = (seg_len, w)"
  using assms
  by (auto simp: sweep_cell_def row_key_def Let_def split: sum.splits prod.splits)

lemma sweep_windows_keys:
  "sweep_windows rnd P states num_steps runs draws seg_len ws (rows, k) = Inr (rows', k') \<Longrightarrow>
   \<exists>new. rows' = rows @ new \<and> map row_key new = map (Pair seg_len) ws"
proof (induction ws arbitrary: rows k)
  case Nil
  then show ?case by simp
next
  case (Cons w ws)
  from Cons.prems obtain row k1 where
    c: "sweep_cell rnd P states num_steps runs draws seg_len w k = Inr (row, k1)"
    and rest: "sweep_windows rnd P states num_steps runs draws seg_len ws (rows @ [row], k1) = Inr (rows', k')"
    by (auto split: sum.splits prod.splits)
  from Cons.IH[OF rest] obtain new where
    n: "rows' = (rows @ [row]) @ new" "map row_key new = map (Pair seg_len) ws" by blast
  have "rows' = rows @ (row # new)" using n(1) by simp
  moreover have "map row_key (row # new) = map (Pair seg_len) (w # ws)"
    using n(2) sweep_cell_key[OF c] by simp
  ultimately show ?case by blast
qed

lemma sweep_windows_ok:
  assumes "chain_ok P states" and "0 \<notin> set states" and "1 \<le> num_steps" and "2 \<le> runs"
  shows "windows_ok ws \<Longrightarrow>
         \<exists>s'. sweep_windows rnd P states num_steps runs draws seg_len ws (rows, k) = Inr s'"
proof (induction ws arbitrary: rows k)
  case Nil
  show ?case by simp
next
  case (Cons w ws)
  from Cons.prems have w: "1 \<le> w" and ws: "windows_ok ws" by (simp_all add: windows_ok_def)
  from sweep_cell_ok[OF assms(1-3) w assms(4), of rnd draws seg_len k] obtain row k1 where
    c: "sweep_cell rnd P states num_steps runs draws seg_len w k = Inr (row, k1)" by blast
  from Cons.IH[OF ws, of "rows @ [row]" k1] show ?case by (simp add: c)
qed

lemma sweep_lengths_keys:
  "sweep_lengths rnd P states num_steps runs draws ss ws (rows, k) = Inr (rows', k') \<Longrightarrow>
   \<exists>new. rows' = rows @ new \<and> map row_key new = List.product ss ws"
proof (induction ss arbitrary: rows k)
  case Nil
  then show ?case by simp
next
  case (Cons seg_len ss)
  from Cons.prems obtain rows1 k1 where
    inner: "sweep_windows rnd P states num_steps runs draws seg_len ws (rows, k) = Inr (rows1, k1)"
    and rest: "sweep_lengths rnd P states num_steps runs draws ss ws (rows1, k1) = Inr (rows', k')"
    by (auto split: sum.splits)
  from sweep_windows_keys[OF inner] obtain new1 where
    n1: "rows1 = rows @ new1" "map row_key new1 = map (Pair seg_len) ws" by blast
  from Cons.IH[OF rest] obtain new2 where
    n2: "rows' = rows1 @ new2" "map row_key new2 = List.product ss ws" by blast
  have "rows' = rows @ (new1 @ new2)" using n1(1) n2(1) by simp
  moreover have "map row_key (new1 @ new2) = List.product (seg_len # ss) ws"
    using n1(2) n2(2) by simp
  ultimately show ?case by blast
qed

lemma sweep_lengths_ok:
  assumes "chain_ok P states" and "0 \<notin> set states" and "1 \<le> num_steps" and "2 \<le> runs"
    and "windows_ok ws"
  shows "\<exists>s'. sweep_lengths rnd P states num_steps runs draws ss ws s = Inr s'"
proof (induction ss arbitrary: s)
  case Nil
  show ?case by simp
next
  case (Cons seg_len ss)
  obtain rows k where s: "s = (rows, k)" by (cases s)
  from sweep_windows_ok[OF assms(1-4) assms(5), of rnd draws seg_len rows k] obtain s1 where
    "sweep_windows rnd P states num_steps runs draws seg_len ws (rows, k) = Inr s1" by blast
  with Cons.IH[of s1] show ?case by (simp add: s)
qed

text \<open>
  Claim C4. Whenever parameter\_sweep returns, the file has the header and exactly one
  data row per (segment\_length, smooth\_window) pair, in the nested order
  segment\_length outer, smooth\_window inner, hence
  \<open>len(segment_lengths) * len(smooth_windows)\<close> rows. It does return for every
  list of segment lengths and every list of windows that are at least 1, on a
  well-formed chain with non-zero states, at least one step and at least two runs.
\<close>

theorem sweep_rows_in_nested_order:
  shows "(\<forall>header rows k'.
            parameter_sweep rnd P states num_steps segment_lengths smooth_windows runs draws k
              = Inr ((header, rows), k')
            \<longrightarrow> header = csv_header
                \<and> map row_key rows = List.product segment_lengths smooth_windows
                \<and> length rows = length segment_lengths * length smooth_windows)
       \<and> (chain_ok P states \<and> 0 \<notin> set states \<and> 1 \<le> num_steps \<and> 2 \<le> runs
            \<and> windows_ok smooth_windows
            \<longrightarrow> (\<exists>rows k'.
                   parameter_sweep rnd P states num_steps segment_lengths smooth_windows runs draws k
                     = Inr ((csv_header, rows), k')))"
proof (intro conjI allI impI)
  fix header rows k'
  assume run: "parameter_sweep rnd P states num_steps segment_lengths smooth_windows runs draws k
              = Inr ((header, rows), k')"
  then have loop: "sweep_lengths rnd P states num_steps runs draws segment_lengths smooth_windows ([], k)
                   = Inr (rows, k')"
    and hdr: "header = csv_header"
    by (auto simp: parameter_sweep_def split: sum.splits prod.splits)
  from sweep_lengths_keys[OF loop]
  have keys: "map row_key rows = List.product segment_lengths smooth_windows" by simp
  show "header = csv_header" by (rule hdr)
  show "map row_key rows = List.product segment_lengths smooth_windows" by (rule keys)
  have "length rows = length (map row_key rows)" by simp
  also have "\<dots> = length segment_lengths * length smooth_windows"
    unfolding keys by (rule length_product)
  finally show "length rows = length segment_lengths * length smooth_windows" .
next
  assume h: "chain_ok P states \<and> 0 \<notin> set states \<and> 1 \<le> num_steps \<and> 2 \<le> runs
            \<and> windows_ok smooth_windows"
  then have a: "chain_ok P states" "0 \<notin> set states" "1 \<le> num_steps" "2 \<le> runs"
    "windows_ok smooth_windows" by simp_all
  from sweep_lengths_ok[OF a, of rnd draws segment_lengths "([], k)"] obtain s' where
    "sweep_lengths rnd P states num_steps runs draws segment_lengths smooth_windows ([], k) = Inr s'"
    by blast
  then show "\<exists>rows k'.
                   parameter_sweep rnd P states num_steps segment_lengths smooth_windows runs draws k
                     = Inr ((csv_header, rows), k')"
    by (cases s') (simp add: parameter_sweep_def)
qed

theorem sweep_rows_in_nested_order_witness:
  "chain_ok [[1]] [500] \<and> 0 \<notin> set [500 :: real] \<and> (1::int) \<le> 1 \<and> (2::int) \<le> 2
   \<and> windows_ok [1, 3]
   \<and> (\<exists>rows k'. parameter_sweep double_round [[1]] [500] 1 [2, 4] [1, 3] 2 (replay [0]) 0
                    = Inr ((csv_header, rows), k')
         \<and> map row_key rows = [(2, 1), (2, 3), (4, 1), (4, 3)]
         \<and> length rows = 4)"
proof -
  have h: "chain_ok [[1]] [500]" "0 \<notin> set [500 :: real]" "windows_ok [1, 3]"
    by (simp_all add: chain_ok_def rows_fit_def windows_ok_def)
  from sweep_rows_in_nested_order[of double_round "[[1]]" "[500]" 1 "[2, 4]" "[1, 3]" 2 "replay [0]" 0] h
  obtain rows k' where
    run: "parameter_sweep double_round [[1]] [500] 1 [2, 4] [1, 3] 2 (replay [0]) 0 = Inr ((csv_header, rows), k')"
    by auto
  with sweep_rows_in_nested_order[of double_round "[[1]]" "[500]" 1 "[2, 4]" "[1, 3]" 2 "replay [0]" 0]
  have "map row_key rows = List.product [2, 4] [1, 3]"
    "length rows = length [2, 4 :: real] * length [1, 3 :: int]"
    by blast+
  then have "map row_key rows = [(2, 1), (2, 3), (4, 1), (4, 3)] \<and> length rows = 4"
    by simp
  with run h show ?thesis by auto
qed

end
